theory Spec2Isabelle
  imports Main
begin

section \<open>Characters and strings of the Python runtime\<close>

text \<open>
  A Python \<^verbatim>\<open>str\<close> is a sequence of Unicode code points. A character is modelled by its
  code point, a string by the list of its code points. String literals of the source are
  written with \<open>lit\<close>, which maps an ASCII literal to its code points.
\<close>

type_synonym uchar = nat
type_synonym ustr = "nat list"

definition lit :: "string \<Rightarrow> ustr" where
  "lit s = map of_char s"

definition hyphen :: uchar where "hyphen = 45"
definition en_dash :: uchar where "en_dash = 8211"
definition em_dash :: uchar where "em_dash = 8212"
definition comma :: uchar where "comma = 44"
definition space :: uchar where "space = 32"
definition newline :: uchar where "newline = 10"
definition underscore :: uchar where "underscore = 95"

text \<open>Membership in the literal \<^verbatim>\<open>"-\u2013\u2014"\<close> (hyphen-minus, U+2013, U+2014).\<close>

definition is_dash :: "uchar \<Rightarrow> bool" where
  "is_dash c = (c = hyphen \<or> c = en_dash \<or> c = em_dash)"

text \<open>
  \<^verbatim>\<open>str.isspace\<close>, which is also the class \<^verbatim>\<open>\s\<close> of \<^verbatim>\<open>re\<close> on \<^verbatim>\<open>str\<close> patterns and the
  set that \<^verbatim>\<open>str.strip()\<close> removes: U+0009..000D, U+001C..0020, U+0085, U+00A0, U+1680,
  U+2000..200A, U+2028, U+2029, U+202F, U+205F, U+3000.
\<close>

definition isspace :: "uchar \<Rightarrow> bool" where
  "isspace c = ((9 \<le> c \<and> c \<le> 13) \<or> (28 \<le> c \<and> c \<le> 32) \<or> c = 133 \<or> c = 160 \<or> c = 5760
     \<or> (8192 \<le> c \<and> c \<le> 8202) \<or> c = 8232 \<or> c = 8233 \<or> c = 8239 \<or> c = 8287 \<or> c = 12288)"

text \<open>
  \<^verbatim>\<open>str.isalnum\<close> beyond ASCII is a table of the Unicode character database of the
  interpreter (here Unicode 14.0, CPython 3.11), given as inclusive code point ranges.
\<close>

definition alnum_ranges :: "(nat \<times> nat) list" where
  "alnum_ranges = [
    (170, 170), (178, 179), (181, 181), (185, 186), (188, 190), (192, 214), (216, 246),
    (248, 705), (710, 721), (736, 740), (748, 748), (750, 750), (880, 884), (886, 887),
    (890, 893), (895, 895), (902, 902), (904, 906), (908, 908), (910, 929), (931, 1013),
    (1015, 1153), (1162, 1327), (1329, 1366), (1369, 1369), (1376, 1416), (1488, 1514),
    (1519, 1522), (1568, 1610), (1632, 1641), (1646, 1647), (1649, 1747), (1749, 1749),
    (1765, 1766), (1774, 1788), (1791, 1791), (1808, 1808), (1810, 1839), (1869, 1957),
    (1969, 1969), (1984, 2026), (2036, 2037), (2042, 2042), (2048, 2069), (2074, 2074),
    (2084, 2084), (2088, 2088), (2112, 2136), (2144, 2154), (2160, 2183), (2185, 2190),
    (2208, 2249), (2308, 2361), (2365, 2365), (2384, 2384), (2392, 2401), (2406, 2415),
    (2417, 2432), (2437, 2444), (2447, 2448), (2451, 2472), (2474, 2480), (2482, 2482),
    (2486, 2489), (2493, 2493), (2510, 2510), (2524, 2525), (2527, 2529), (2534, 2545),
    (2548, 2553), (2556, 2556), (2565, 2570), (2575, 2576), (2579, 2600), (2602, 2608),
    (2610, 2611), (2613, 2614), (2616, 2617), (2649, 2652), (2654, 2654), (2662, 2671),
    (2674, 2676), (2693, 2701), (2703, 2705), (2707, 2728), (2730, 2736), (2738, 2739),
    (2741, 2745), (2749, 2749), (2768, 2768), (2784, 2785), (2790, 2799), (2809, 2809),
    (2821, 2828), (2831, 2832), (2835, 2856), (2858, 2864), (2866, 2867), (2869, 2873),
    (2877, 2877), (2908, 2909), (2911, 2913), (2918, 2927), (2929, 2935), (2947, 2947),
    (2949, 2954), (2958, 2960), (2962, 2965), (2969, 2970), (2972, 2972), (2974, 2975),
    (2979, 2980), (2984, 2986), (2990, 3001), (3024, 3024), (3046, 3058), (3077, 3084),
    (3086, 3088), (3090, 3112), (3114, 3129), (3133, 3133), (3160, 3162), (3165, 3165),
    (3168, 3169), (3174, 3183), (3192, 3198), (3200, 3200), (3205, 3212), (3214, 3216),
    (3218, 3240), (3242, 3251), (3253, 3257), (3261, 3261), (3293, 3294), (3296, 3297),
    (3302, 3311), (3313, 3314), (3332, 3340), (3342, 3344), (3346, 3386), (3389, 3389),
    (3406, 3406), (3412, 3414), (3416, 3425), (3430, 3448), (3450, 3455), (3461, 3478),
    (3482, 3505), (3507, 3515), (3517, 3517), (3520, 3526), (3558, 3567), (3585, 3632),
    (3634, 3635), (3648, 3654), (3664, 3673), (3713, 3714), (3716, 3716), (3718, 3722),
    (3724, 3747), (3749, 3749), (3751, 3760), (3762, 3763), (3773, 3773), (3776, 3780),
    (3782, 3782), (3792, 3801), (3804, 3807), (3840, 3840), (3872, 3891), (3904, 3911),
    (3913, 3948), (3976, 3980), (4096, 4138), (4159, 4169), (4176, 4181), (4186, 4189),
    (4193, 4193), (4197, 4198), (4206, 4208), (4213, 4225), (4238, 4238), (4240, 4249),
    (4256, 4293), (4295, 4295), (4301, 4301), (4304, 4346), (4348, 4680), (4682, 4685),
    (4688, 4694), (4696, 4696), (4698, 4701), (4704, 4744), (4746, 4749), (4752, 4784),
    (4786, 4789), (4792, 4798), (4800, 4800), (4802, 4805), (4808, 4822), (4824, 4880),
    (4882, 4885), (4888, 4954), (4969, 4988), (4992, 5007), (5024, 5109), (5112, 5117),
    (5121, 5740), (5743, 5759), (5761, 5786), (5792, 5866), (5870, 5880), (5888, 5905),
    (5919, 5937), (5952, 5969), (5984, 5996), (5998, 6000), (6016, 6067), (6103, 6103),
    (6108, 6108), (6112, 6121), (6128, 6137), (6160, 6169), (6176, 6264), (6272, 6276),
    (6279, 6312), (6314, 6314), (6320, 6389), (6400, 6430), (6470, 6509), (6512, 6516),
    (6528, 6571), (6576, 6601), (6608, 6618), (6656, 6678), (6688, 6740), (6784, 6793),
    (6800, 6809), (6823, 6823), (6917, 6963), (6981, 6988), (6992, 7001), (7043, 7072),
    (7086, 7141), (7168, 7203), (7232, 7241), (7245, 7293), (7296, 7304), (7312, 7354),
    (7357, 7359), (7401, 7404), (7406, 7411), (7413, 7414), (7418, 7418), (7424, 7615),
    (7680, 7957), (7960, 7965), (7968, 8005), (8008, 8013), (8016, 8023), (8025, 8025),
    (8027, 8027), (8029, 8029), (8031, 8061), (8064, 8116), (8118, 8124), (8126, 8126),
    (8130, 8132), (8134, 8140), (8144, 8147), (8150, 8155), (8160, 8172), (8178, 8180),
    (8182, 8188), (8304, 8305), (8308, 8313), (8319, 8329), (8336, 8348), (8450, 8450),
    (8455, 8455), (8458, 8467), (8469, 8469), (8473, 8477), (8484, 8484), (8486, 8486),
    (8488, 8488), (8490, 8493), (8495, 8505), (8508, 8511), (8517, 8521), (8526, 8526),
    (8528, 8585), (9312, 9371), (9450, 9471), (10102, 10131), (11264, 11492), (11499, 11502),
    (11506, 11507), (11517, 11517), (11520, 11557), (11559, 11559), (11565, 11565),
    (11568, 11623), (11631, 11631), (11648, 11670), (11680, 11686), (11688, 11694),
    (11696, 11702), (11704, 11710), (11712, 11718), (11720, 11726), (11728, 11734),
    (11736, 11742), (11823, 11823), (12293, 12295), (12321, 12329), (12337, 12341),
    (12344, 12348), (12353, 12438), (12445, 12447), (12449, 12538), (12540, 12543),
    (12549, 12591), (12593, 12686), (12690, 12693), (12704, 12735), (12784, 12799),
    (12832, 12841), (12872, 12879), (12881, 12895), (12928, 12937), (12977, 12991),
    (13312, 19903), (19968, 42124), (42192, 42237), (42240, 42508), (42512, 42539),
    (42560, 42606), (42623, 42653), (42656, 42735), (42775, 42783), (42786, 42888),
    (42891, 42954), (42960, 42961), (42963, 42963), (42965, 42969), (42994, 43009),
    (43011, 43013), (43015, 43018), (43020, 43042), (43056, 43061), (43072, 43123),
    (43138, 43187), (43216, 43225), (43250, 43255), (43259, 43259), (43261, 43262),
    (43264, 43301), (43312, 43334), (43360, 43388), (43396, 43442), (43471, 43481),
    (43488, 43492), (43494, 43518), (43520, 43560), (43584, 43586), (43588, 43595),
    (43600, 43609), (43616, 43638), (43642, 43642), (43646, 43695), (43697, 43697),
    (43701, 43702), (43705, 43709), (43712, 43712), (43714, 43714), (43739, 43741),
    (43744, 43754), (43762, 43764), (43777, 43782), (43785, 43790), (43793, 43798),
    (43808, 43814), (43816, 43822), (43824, 43866), (43868, 43881), (43888, 44002),
    (44016, 44025), (44032, 55203), (55216, 55238), (55243, 55291), (63744, 64109),
    (64112, 64217), (64256, 64262), (64275, 64279), (64285, 64285), (64287, 64296),
    (64298, 64310), (64312, 64316), (64318, 64318), (64320, 64321), (64323, 64324),
    (64326, 64433), (64467, 64829), (64848, 64911), (64914, 64967), (65008, 65019),
    (65136, 65140), (65142, 65276), (65296, 65305), (65313, 65338), (65345, 65370),
    (65382, 65470), (65474, 65479), (65482, 65487), (65490, 65495), (65498, 65500),
    (65536, 65547), (65549, 65574), (65576, 65594), (65596, 65597), (65599, 65613),
    (65616, 65629), (65664, 65786), (65799, 65843), (65856, 65912), (65930, 65931),
    (66176, 66204), (66208, 66256), (66273, 66299), (66304, 66339), (66349, 66378),
    (66384, 66421), (66432, 66461), (66464, 66499), (66504, 66511), (66513, 66517),
    (66560, 66717), (66720, 66729), (66736, 66771), (66776, 66811), (66816, 66855),
    (66864, 66915), (66928, 66938), (66940, 66954), (66956, 66962), (66964, 66965),
    (66967, 66977), (66979, 66993), (66995, 67001), (67003, 67004), (67072, 67382),
    (67392, 67413), (67424, 67431), (67456, 67461), (67463, 67504), (67506, 67514),
    (67584, 67589), (67592, 67592), (67594, 67637), (67639, 67640), (67644, 67644),
    (67647, 67669), (67672, 67702), (67705, 67742), (67751, 67759), (67808, 67826),
    (67828, 67829), (67835, 67867), (67872, 67897), (67968, 68023), (68028, 68047),
    (68050, 68096), (68112, 68115), (68117, 68119), (68121, 68149), (68160, 68168),
    (68192, 68222), (68224, 68255), (68288, 68295), (68297, 68324), (68331, 68335),
    (68352, 68405), (68416, 68437), (68440, 68466), (68472, 68497), (68521, 68527),
    (68608, 68680), (68736, 68786), (68800, 68850), (68858, 68899), (68912, 68921),
    (69216, 69246), (69248, 69289), (69296, 69297), (69376, 69415), (69424, 69445),
    (69457, 69460), (69488, 69505), (69552, 69579), (69600, 69622), (69635, 69687),
    (69714, 69743), (69745, 69746), (69749, 69749), (69763, 69807), (69840, 69864),
    (69872, 69881), (69891, 69926), (69942, 69951), (69956, 69956), (69959, 69959),
    (69968, 70002), (70006, 70006), (70019, 70066), (70081, 70084), (70096, 70106),
    (70108, 70108), (70113, 70132), (70144, 70161), (70163, 70187), (70272, 70278),
    (70280, 70280), (70282, 70285), (70287, 70301), (70303, 70312), (70320, 70366),
    (70384, 70393), (70405, 70412), (70415, 70416), (70419, 70440), (70442, 70448),
    (70450, 70451), (70453, 70457), (70461, 70461), (70480, 70480), (70493, 70497),
    (70656, 70708), (70727, 70730), (70736, 70745), (70751, 70753), (70784, 70831),
    (70852, 70853), (70855, 70855), (70864, 70873), (71040, 71086), (71128, 71131),
    (71168, 71215), (71236, 71236), (71248, 71257), (71296, 71338), (71352, 71352),
    (71360, 71369), (71424, 71450), (71472, 71483), (71488, 71494), (71680, 71723),
    (71840, 71922), (71935, 71942), (71945, 71945), (71948, 71955), (71957, 71958),
    (71960, 71983), (71999, 71999), (72001, 72001), (72016, 72025), (72096, 72103),
    (72106, 72144), (72161, 72161), (72163, 72163), (72192, 72192), (72203, 72242),
    (72250, 72250), (72272, 72272), (72284, 72329), (72349, 72349), (72368, 72440),
    (72704, 72712), (72714, 72750), (72768, 72768), (72784, 72812), (72818, 72847),
    (72960, 72966), (72968, 72969), (72971, 73008), (73030, 73030), (73040, 73049),
    (73056, 73061), (73063, 73064), (73066, 73097), (73112, 73112), (73120, 73129),
    (73440, 73458), (73648, 73648), (73664, 73684), (73728, 74649), (74752, 74862),
    (74880, 75075), (77712, 77808), (77824, 78894), (82944, 83526), (92160, 92728),
    (92736, 92766), (92768, 92777), (92784, 92862), (92864, 92873), (92880, 92909),
    (92928, 92975), (92992, 92995), (93008, 93017), (93019, 93025), (93027, 93047),
    (93053, 93071), (93760, 93846), (93952, 94026), (94032, 94032), (94099, 94111),
    (94176, 94177), (94179, 94179), (94208, 100343), (100352, 101589), (101632, 101640),
    (110576, 110579), (110581, 110587), (110589, 110590), (110592, 110882), (110928, 110930),
    (110948, 110951), (110960, 111355), (113664, 113770), (113776, 113788), (113792, 113800),
    (113808, 113817), (119520, 119539), (119648, 119672), (119808, 119892), (119894, 119964),
    (119966, 119967), (119970, 119970), (119973, 119974), (119977, 119980), (119982, 119993),
    (119995, 119995), (119997, 120003), (120005, 120069), (120071, 120074), (120077, 120084),
    (120086, 120092), (120094, 120121), (120123, 120126), (120128, 120132), (120134, 120134),
    (120138, 120144), (120146, 120485), (120488, 120512), (120514, 120538), (120540, 120570),
    (120572, 120596), (120598, 120628), (120630, 120654), (120656, 120686), (120688, 120712),
    (120714, 120744), (120746, 120770), (120772, 120779), (120782, 120831), (122624, 122654),
    (123136, 123180), (123191, 123197), (123200, 123209), (123214, 123214), (123536, 123565),
    (123584, 123627), (123632, 123641), (124896, 124902), (124904, 124907), (124909, 124910),
    (124912, 124926), (124928, 125124), (125127, 125135), (125184, 125251), (125259, 125259),
    (125264, 125273), (126065, 126123), (126125, 126127), (126129, 126132), (126209, 126253),
    (126255, 126269), (126464, 126467), (126469, 126495), (126497, 126498), (126500, 126500),
    (126503, 126503), (126505, 126514), (126516, 126519), (126521, 126521), (126523, 126523),
    (126530, 126530), (126535, 126535), (126537, 126537), (126539, 126539), (126541, 126543),
    (126545, 126546), (126548, 126548), (126551, 126551), (126553, 126553), (126555, 126555),
    (126557, 126557), (126559, 126559), (126561, 126562), (126564, 126564), (126567, 126570),
    (126572, 126578), (126580, 126583), (126585, 126588), (126590, 126590), (126592, 126601),
    (126603, 126619), (126625, 126627), (126629, 126633), (126635, 126651), (127232, 127244),
    (130032, 130041), (131072, 173791), (173824, 177976), (177984, 178205), (178208, 183969),
    (183984, 191456), (194560, 195101), (196608, 201546)
  ]"

definition isalnum :: "uchar \<Rightarrow> bool" where
  "isalnum c = (if c < 128 then (48 \<le> c \<and> c \<le> 57) \<or> (65 \<le> c \<and> c \<le> 90) \<or> (97 \<le> c \<and> c \<le> 122)
     else list_ex (\<lambda>(lo, hi). lo \<le> c \<and> c \<le> hi) alnum_ranges)"

text \<open>\<^verbatim>\<open>[A-Za-z]\<close> without flags, and \<^verbatim>\<open>str.lower()\<close> on such letters.\<close>

definition ascii_letter :: "uchar \<Rightarrow> bool" where
  "ascii_letter c = ((65 \<le> c \<and> c \<le> 90) \<or> (97 \<le> c \<and> c \<le> 122))"

definition ascii_lower :: "uchar \<Rightarrow> uchar" where
  "ascii_lower c = (if 65 \<le> c \<and> c \<le> 90 then c + 32 else c)"

text \<open>\<^verbatim>\<open>\w\<close> of \<^verbatim>\<open>re\<close>: alphanumeric or underscore; \<^verbatim>\<open>\b\<close> holds at offset \<open>i\<close> when exactly
  one of the characters before and at \<open>i\<close> is a word character (none at the ends).\<close>

definition is_word :: "uchar \<Rightarrow> bool" where
  "is_word c = (isalnum c \<or> c = underscore)"

definition word_boundary :: "ustr \<Rightarrow> nat \<Rightarrow> bool" where
  "word_boundary text i =
     ((0 < i \<and> i \<le> length text \<and> is_word (text ! (i - 1))) \<noteq> (i < length text \<and> is_word (text ! i)))"

text \<open>\<^verbatim>\<open>str.strip()\<close>.\<close>

definition strip :: "ustr \<Rightarrow> ustr" where
  "strip s = rev (dropWhile isspace (rev (dropWhile isspace s)))"

section \<open>Python indexing and slicing\<close>

datatype py_error = IndexError

text \<open>Slice bounds: a negative bound counts from the end; both are clamped to \<open>[0, n]\<close>.\<close>

definition adjust_index :: "int \<Rightarrow> nat \<Rightarrow> nat" where
  "adjust_index i n = (if i < 0 then nat (max (i + int n) 0) else min (nat i) n)"

definition py_slice :: "'a list \<Rightarrow> int \<Rightarrow> int \<Rightarrow> 'a list" where
  "py_slice xs i j = drop (adjust_index i (length xs)) (take (adjust_index j (length xs)) xs)"

text \<open>\<^verbatim>\<open>xs[i]\<close>: a negative index counts from the end; out of range raises.\<close>

definition py_index :: "'a list \<Rightarrow> int \<Rightarrow> py_error + 'a" where
  "py_index xs i =
     (if 0 \<le> i \<and> i < int (length xs) then Inr (xs ! nat i)
      else if i < 0 \<and> - int (length xs) \<le> i then Inr (xs ! nat (i + int (length xs)))
      else Inl IndexError)"

text \<open>\<^verbatim>\<open>text.find(c, start, end)\<close> for a one-character needle: the bounds are read as slice
  bounds, the result is an offset of \<open>text\<close> or \<open>-1\<close>.\<close>

definition py_find_char :: "uchar \<Rightarrow> ustr \<Rightarrow> int \<Rightarrow> int \<Rightarrow> int" where
  "py_find_char c text i j =
     (case find (\<lambda>k. text ! k = c) [adjust_index i (length text) ..< adjust_index j (length text)] of
        None \<Rightarrow> - 1 | Some k \<Rightarrow> int k)"

text \<open>\<^verbatim>\<open>s.rfind(sub)\<close>: the highest offset where \<open>sub\<close> occurs, or \<open>-1\<close>.\<close>

definition py_rfind :: "ustr \<Rightarrow> ustr \<Rightarrow> int" where
  "py_rfind s sub =
     (case find (\<lambda>k. take (length sub) (drop k s) = sub) (rev [0 ..< Suc (length s - length sub)]) of
        None \<Rightarrow> - 1 | Some k \<Rightarrow> int k)"

section \<open>Tier 3: \<^verbatim>\<open>fallback_split_by_commas_and_conjs\<close>\<close>

text \<open>A chunk before the final formatting: the dict \<^verbatim>\<open>{"chunk": ..., "rule": ...}\<close>.\<close>

record piece =
  chunk :: ustr
  rule :: string

text \<open>The inner loop \<^verbatim>\<open>while start < length and text[start].isspace(): start += 1\<close>.\<close>

function skip_spaces :: "ustr \<Rightarrow> int \<Rightarrow> py_error + int" where
  "skip_spaces text start =
     (if start < int (length text) then
        (case py_index text start of
           Inl e \<Rightarrow> Inl e
         | Inr c \<Rightarrow> if isspace c then skip_spaces text (start + 1) else Inr start)
      else Inr start)"
  by pat_completeness auto
termination
  by (relation "measure (\<lambda>(text, start). nat (int (length text) - start))") auto

declare skip_spaces.simps [simp del]

text \<open>
  The loop \<^verbatim>\<open>for conj in [" and ", " or "]\<close>: the first conjunction of the list whose last
  occurrence in the window starts beyond 30 percent of the window is taken. The source
  compares the integer \<open>pos\<close> with the double \<^verbatim>\<open>len(window_slice) * 0.3\<close>; for every length
  below \<open>2^50\<close> that comparison has the truth value of \<open>3 * len < 10 * pos\<close>, which is what the
  model computes.
\<close>

fun conj_search :: "ustr list \<Rightarrow> ustr \<Rightarrow> int \<Rightarrow> int option" where
  "conj_search [] window_slice start = None"
| "conj_search (cj # conjs) window_slice start =
     (let pos = py_rfind window_slice cj
      in if pos \<noteq> - 1 \<and> 3 * int (length window_slice) < 10 * pos then Some (start + pos)
         else conj_search conjs window_slice start)"

text \<open>The choice of \<^verbatim>\<open>cut_at\<close> and \<^verbatim>\<open>rule\<close> for a window \<^verbatim>\<open>[start, window_end)\<close> (steps 1 to 3
  of the loop body): a comma, else a conjunction, else the hard cut.\<close>

definition choose_cut :: "ustr \<Rightarrow> string \<Rightarrow> int \<Rightarrow> int \<Rightarrow> int \<times> string" where
  "choose_cut text base_rule start window_end =
     (let comma_pos = py_find_char comma text start window_end in
      if comma_pos \<noteq> - 1 then (comma_pos + 1, base_rule @ ''+comma_split'')
      else
        (case conj_search [lit '' and '', lit '' or ''] (py_slice text start window_end) start of
           Some match_pos \<Rightarrow> (match_pos, base_rule @ ''+conj_split'')
         | None \<Rightarrow> (window_end, base_rule @ ''+length_limit'')))"

definition append_segment :: "piece list \<Rightarrow> ustr \<Rightarrow> string \<Rightarrow> piece list" where
  "append_segment chunks segment r =
     (if segment \<noteq> [] then chunks @ [\<lparr>chunk = segment, rule = r\<rparr>] else chunks)"

text \<open>One pass through the body of \<^verbatim>\<open>while start < length\<close>: it breaks with the chunks,
  raises, or goes round again with a new \<open>start\<close>.\<close>

datatype loop_step = Break "piece list" | Raised py_error | Continue int "piece list"

definition fallback_body :: "ustr \<Rightarrow> int \<Rightarrow> string \<Rightarrow> int \<Rightarrow> piece list \<Rightarrow> loop_step" where
  "fallback_body text max_len base_rule start0 chunks =
     (let len = int (length text) in
      case skip_spaces text start0 of
        Inl e \<Rightarrow> Raised e
      | Inr start \<Rightarrow>
          if start \<ge> len then Break chunks
          else if len - start \<le> max_len then
            Break (append_segment chunks (strip (py_slice text start len)) (base_rule @ ''+tail''))
          else
            (let window_end = min (start + max_len) len;
                 (cut_at, r) = choose_cut text base_rule start window_end
             in Continue cut_at (append_segment chunks (strip (py_slice text start cut_at)) r)))"

text \<open>The outer loop may run forever (no progress when \<open>cut_at \<le> start\<close>), so it is a partial
  function: \<open>None\<close> is "does not return", \<open>Some (Inl e)\<close> an exception, \<open>Some (Inr cs)\<close> the
  returned list.\<close>

partial_function (option) fallback_loop ::
  "ustr \<Rightarrow> int \<Rightarrow> string \<Rightarrow> int \<Rightarrow> piece list \<Rightarrow> (py_error + piece list) option" where
  "fallback_loop text max_len base_rule start chunks =
     (if start < int (length text) then
        (case fallback_body text max_len base_rule start chunks of
           Break cs \<Rightarrow> Some (Inr cs)
         | Raised e \<Rightarrow> Some (Inl e)
         | Continue cut_at cs \<Rightarrow> fallback_loop text max_len base_rule cut_at cs)
      else Some (Inr chunks))"

definition fallback_split_by_commas_and_conjs ::
  "ustr \<Rightarrow> int \<Rightarrow> string \<Rightarrow> (py_error + piece list) option" where
  "fallback_split_by_commas_and_conjs text max_len base_rule = fallback_loop text max_len base_rule 0 []"

section \<open>The normalizer: \<^verbatim>\<open>normalize_for_tts\<close>\<close>

subsection \<open>Pass 1: bracketed asides\<close>

text \<open>
  \<^verbatim>\<open>re.sub(r"[-\u2013\u2014]([^\u2013\u2014\n]*?)[-\u2013\u2014]", replace_aside, text)\<close>.
  After the opening dash the lazy group is extended one character at a time: at each
  character the closing class (any of the three dashes) is tried first, and only a character
  outside it that is none of U+2013, U+2014 and newline extends the group. \<open>find_close\<close>
  returns the group, the closing dash and the text after the match.
\<close>

fun find_close :: "ustr \<Rightarrow> (ustr \<times> uchar \<times> ustr) option" where
  "find_close [] = None"
| "find_close (c # cs) =
     (if is_dash c then Some ([], c, cs)
      else if c \<noteq> en_dash \<and> c \<noteq> em_dash \<and> c \<noteq> newline then
        (case find_close cs of
           None \<Rightarrow> None
         | Some (inner, d, rest) \<Rightarrow> Some (c # inner, d, rest))
      else None)"

lemma find_close_shorter: "find_close cs = Some (inner, d, rest) \<Longrightarrow> length rest < length cs"
  by (induction cs arbitrary: inner) (auto split: if_splits option.splits)

text \<open>\<open>group0\<close> is \<^verbatim>\<open>match.group(0)\<close>, \<open>inner\<close> is \<^verbatim>\<open>match.group(1)\<close>.\<close>

definition replace_aside :: "ustr \<Rightarrow> ustr \<Rightarrow> ustr" where
  "replace_aside group0 inner =
     (if space \<in> set (strip inner) then lit '', '' @ strip inner @ lit '', '' else group0)"

text \<open>The scan of \<^verbatim>\<open>re.sub\<close>: leftmost match, replaced, and the search resumes after it; a
  character at which no match starts is copied.\<close>

function aside_sub :: "ustr \<Rightarrow> ustr" where
  "aside_sub [] = []"
| "aside_sub (c # cs) =
     (if is_dash c then
        (case find_close cs of
           Some (inner, d, rest) \<Rightarrow> replace_aside (c # inner @ [d]) inner @ aside_sub rest
         | None \<Rightarrow> c # aside_sub cs)
      else c # aside_sub cs)"
  by pat_completeness auto
termination
  by (relation "measure length") (auto dest: find_close_shorter)

subsection \<open>Pass 2: word, dash, discourse marker\<close>

definition DISCOURSE :: "ustr list" where
  "DISCOURSE = map lit [''however'', ''therefore'', ''moreover'', ''instead'', ''nevertheless'',
     ''nonetheless'', ''furthermore'', ''meanwhile'', ''particularly'', ''especially'', ''otherwise'',
     ''similarly'', ''consequently'', ''thus'', ''indeed'', ''additionally'', ''though'']"

text \<open>\<open>right\<close> is a run of ASCII letters, on which \<^verbatim>\<open>str.lower()\<close> is \<open>ascii_lower\<close>.\<close>

definition replace_word_dash_discourse :: "ustr \<Rightarrow> uchar \<Rightarrow> ustr \<Rightarrow> ustr" where
  "replace_word_dash_discourse left dash right =
     (if map ascii_lower right \<in> set DISCOURSE then left @ lit '', '' @ right
      else left @ [dash] @ right)"

text \<open>
  A match of \<^verbatim>\<open>\b([A-Za-z]+)([-\u2013\u2014])([A-Za-z]+)\b\<close> at offset \<open>i\<close>. Both groups are greedy; a
  shorter first group would need a dash where a letter stands, a shorter third group a word
  boundary between two letters, so the only candidate takes both letter runs whole. The result
  is the three groups and the end offset of the match.
\<close>

definition match_word_dash_word :: "ustr \<Rightarrow> nat \<Rightarrow> (ustr \<times> uchar \<times> ustr \<times> nat) option" where
  "match_word_dash_word text i =
     (let left = takeWhile ascii_letter (drop i text);
          j = i + length left;
          right = takeWhile ascii_letter (drop (j + 1) text);
          e = j + 1 + length right
      in if word_boundary text i \<and> left \<noteq> [] \<and> j < length text \<and> is_dash (text ! j)
            \<and> right \<noteq> [] \<and> word_boundary text e
         then Some (left, text ! j, right, e) else None)"

lemma match_word_dash_word_end: "match_word_dash_word text i = Some (l, d, r, e) \<Longrightarrow> i < e"
  by (auto simp: match_word_dash_word_def Let_def split: if_splits)

function discourse_sub :: "ustr \<Rightarrow> nat \<Rightarrow> ustr" where
  "discourse_sub text i =
     (if i < length text then
        (case match_word_dash_word text i of
           Some (left, dash, right, e) \<Rightarrow> replace_word_dash_discourse left dash right @ discourse_sub text e
         | None \<Rightarrow> text ! i # discourse_sub text (i + 1))
      else [])"
  by pat_completeness auto
termination
  by (relation "measure (\<lambda>(text, i). length text - i)")
     (auto dest: match_word_dash_word_end)

declare discourse_sub.simps [simp del]

subsection \<open>Pass 3: the remaining dashes, one by one\<close>

text \<open>The body of \<^verbatim>\<open>for i, ch in enumerate(text)\<close>, with the list \<^verbatim>\<open>chars\<close> passed through.\<close>

definition dash_step :: "ustr \<Rightarrow> nat \<Rightarrow> ustr \<Rightarrow> ustr" where
  "dash_step text i chars =
     (let ch = text ! i; n = length text in
      if is_dash ch then
        (let prev = (if i > 0 then text ! (i - 1) else space);
             nxt = (if i + 1 < n then text ! (i + 1) else space)
         in if isalnum prev \<and> isalnum nxt then chars @ [hyphen]
            else if chars \<noteq> [] \<and> last chars = space then butlast chars @ [comma] @ [space]
            else if chars \<noteq> [] \<and> last chars = comma then
              (if nxt \<noteq> space then chars @ [space] else chars)
            else chars @ [comma] @ [space])
      else chars @ [ch])"

definition residual_dashes :: "ustr \<Rightarrow> ustr" where
  "residual_dashes text = fold (dash_step text) [0 ..< length text] []"

subsection \<open>Pass 4: whitespace and commas\<close>

text \<open>\<^verbatim>\<open>re.sub(r"\s+,", ",", text)\<close>: a whitespace run is removed when a comma follows it. The
  greedy run is maximal; a shorter run is followed by whitespace, not by a comma.\<close>

function ws_before_comma :: "ustr \<Rightarrow> ustr" where
  "ws_before_comma [] = []"
| "ws_before_comma (c # cs) =
     (if isspace c then
        (case dropWhile isspace cs of
           [] \<Rightarrow> c # ws_before_comma cs
         | d # ds \<Rightarrow> if d = comma then comma # ws_before_comma ds else c # ws_before_comma cs)
      else c # ws_before_comma cs)"
  by pat_completeness auto
termination
proof (relation "measure length")
  fix c cs d ds
  assume "dropWhile isspace cs = d # ds"
  then have "length (d # ds) \<le> length cs" by (metis length_dropWhile_le)
  then show "(ds, c # cs) \<in> measure length" by simp
qed auto

text \<open>\<^verbatim>\<open>re.sub(r",\s*", ", ", text)\<close>.\<close>

function comma_space :: "ustr \<Rightarrow> ustr" where
  "comma_space [] = []"
| "comma_space (c # cs) =
     (if c = comma then comma # space # comma_space (dropWhile isspace cs)
      else c # comma_space cs)"
  by pat_completeness auto
termination
  by (relation "measure length") (auto simp: length_dropWhile_le less_Suc_eq_le)

text \<open>\<^verbatim>\<open>re.sub(r"\s+", " ", text)\<close>.\<close>

function collapse_ws :: "ustr \<Rightarrow> ustr" where
  "collapse_ws [] = []"
| "collapse_ws (c # cs) =
     (if isspace c then space # collapse_ws (dropWhile isspace cs)
      else c # collapse_ws cs)"
  by pat_completeness auto
termination
  by (relation "measure length") (auto simp: length_dropWhile_le less_Suc_eq_le)

definition normalize_for_tts :: "ustr \<Rightarrow> ustr" where
  "normalize_for_tts text =
     (let text = aside_sub text;
          text = discourse_sub text 0;
          text = residual_dashes text;
          text = ws_before_comma text;
          text = comma_space text;
          text = collapse_ws text
      in strip text)"

section \<open>Paragraphs and sentences\<close>

text \<open>
  A match of \<^verbatim>\<open>\n\s*\n+\<close> whose first newline has just been read, on the text \<open>cs\<close> after it.
  The greedy \<^verbatim>\<open>\s*\<close> takes the whole whitespace run and gives characters back until a newline
  can follow, so the match ends just after the last newline of the run; without a newline in
  the run there is no match. The result is the number of characters of \<open>cs\<close> in the match.
\<close>

definition blank_line_len :: "ustr \<Rightarrow> nat option" where
  "blank_line_len cs =
     (let ws = takeWhile isspace cs in
      if newline \<in> set ws then Some (length ws - length (takeWhile (\<lambda>c. c \<noteq> newline) (rev ws)))
      else None)"

text \<open>\<^verbatim>\<open>re.split(r"\n\s*\n+", text)\<close>: \<open>b\<close> is the start of the current piece, \<open>i\<close> the scan
  position.\<close>

function para_split :: "ustr \<Rightarrow> nat \<Rightarrow> nat \<Rightarrow> ustr list" where
  "para_split text b i =
     (if i < length text then
        (if text ! i = newline then
           (case blank_line_len (drop (i + 1) text) of
              Some k \<Rightarrow> drop b (take i text) # para_split text (i + 1 + k) (i + 1 + k)
            | None \<Rightarrow> para_split text b (i + 1))
         else para_split text b (i + 1))
      else [drop b text])"
  by pat_completeness auto
termination
  by (relation "measure (\<lambda>(text, b, i). length text - i)") auto

declare para_split.simps [simp del]

definition split_into_paragraphs :: "ustr \<Rightarrow> ustr list" where
  "split_into_paragraphs text0 =
     (let text = strip text0 in
      if text = [] then []
      else map strip (filter (\<lambda>p. strip p \<noteq> []) (para_split text 0 0)))"

text \<open>\<^verbatim>\<open>re.split(r"(?<=[.!?])\s+", paragraph)\<close>: a match starts at \<open>i\<close> when the character
  before \<open>i\<close> is a terminal mark and a whitespace run starts at \<open>i\<close>; it takes the whole run.\<close>

definition terminal_mark :: "uchar \<Rightarrow> bool" where
  "terminal_mark c = (c = 46 \<or> c = 33 \<or> c = 63)"

function sentence_split :: "ustr \<Rightarrow> nat \<Rightarrow> nat \<Rightarrow> ustr list" where
  "sentence_split text b i =
     (if i < length text then
        (if 0 < i \<and> terminal_mark (text ! (i - 1)) \<and> isspace (text ! i) then
           (let e = i + length (takeWhile isspace (drop i text))
            in drop b (take i text) # sentence_split text e e)
         else sentence_split text b (i + 1))
      else [drop b text])"
  by pat_completeness auto
termination
proof (relation "measure (\<lambda>(text, b, i). length text - i)")
  fix t :: ustr and b i e
  assume a: "i < length t" "0 < i \<and> terminal_mark (t ! (i - 1)) \<and> isspace (t ! i)"
    and e: "e = i + length (takeWhile isspace (drop i t))"
  from a have "drop i t = t ! i # drop (Suc i) t" by (simp add: Cons_nth_drop_Suc)
  with a have "takeWhile isspace (drop i t) \<noteq> []" by simp
  then have "0 < length (takeWhile isspace (drop i t))" by simp
  with a(1) have "length t - (i + length (takeWhile isspace (drop i t))) < length t - i" by arith
  with e show "((t, e, e), t, b, i) \<in> measure (\<lambda>(text, b, i). length text - i)" by simp
qed auto

declare sentence_split.simps [simp del]

definition split_into_sentences :: "ustr \<Rightarrow> ustr list" where
  "split_into_sentences paragraph0 =
     (let paragraph = collapse_ws (strip paragraph0) in
      if paragraph = [] then []
      else
        (let parts = sentence_split paragraph 0 0 in
         if length parts = 1 then [paragraph]
         else map strip (filter (\<lambda>p. strip p \<noteq> []) parts)))"

section \<open>Tier 2: subordinators\<close>

text \<open>The source holds the words in a \<^verbatim>\<open>set\<close>; the order of the iteration does not reach the
  result, which is sorted and free of duplicates.\<close>

definition SUBORDINATORS :: "ustr list" where
  "SUBORDINATORS = map lit [''when'', ''while'', ''where'', ''with'', ''before'', ''until'', ''because'',
     ''although'', ''though'', ''since'', ''after'', ''as'', ''if'']"

text \<open>
  A lower-case ASCII letter \<open>p\<close> of a pattern compiled with \<^verbatim>\<open>re.IGNORECASE\<close> matches itself,
  its upper-case form, and for \<open>i\<close>, \<open>s\<close>, \<open>k\<close> the code points U+0130, U+0131, U+017F, U+212A
  that fold to them.
\<close>

definition ci_match :: "uchar \<Rightarrow> uchar \<Rightarrow> bool" where
  "ci_match p c = (c = p \<or> c + 32 = p \<or> (p = 105 \<and> (c = 304 \<or> c = 305))
     \<or> (p = 115 \<and> c = 383) \<or> (p = 107 \<and> c = 8490))"

text \<open>\<^verbatim>\<open>\bword\b\<close> matches at offset \<open>i\<close>.\<close>

definition word_at :: "ustr \<Rightarrow> ustr \<Rightarrow> nat \<Rightarrow> bool" where
  "word_at word text i =
     (i + length word \<le> length text \<and> list_all2 ci_match word (take (length word) (drop i text))
      \<and> word_boundary text i \<and> word_boundary text (i + length word))"

text \<open>\<^verbatim>\<open>re.finditer\<close>: the start offsets of the matches, each search resuming at the end of the
  previous match.\<close>

function finditer_word :: "ustr \<Rightarrow> ustr \<Rightarrow> nat \<Rightarrow> nat list" where
  "finditer_word word text i =
     (if i + length word \<le> length text then
        (if word_at word text i then i # finditer_word word text (i + max 1 (length word))
         else finditer_word word text (i + 1))
      else [])"
  by pat_completeness auto
termination
  by (relation "measure (\<lambda>(word, text, i). Suc (length text) - i)") auto

declare finditer_word.simps [simp del]

definition find_subordinator_positions :: "ustr \<Rightarrow> nat list" where
  "find_subordinator_positions text =
     sort (remdups (concat (map (\<lambda>word. finditer_word word text 0) SUBORDINATORS)))"

text \<open>A \<^verbatim>\<open>for\<close> loop over \<open>xs\<close> whose body can raise or fail to return: the first such
  outcome ends the loop.\<close>

fun for_each :: "'a list \<Rightarrow> ('a \<Rightarrow> 's \<Rightarrow> (py_error + 's) option) \<Rightarrow> 's \<Rightarrow> (py_error + 's) option" where
  "for_each [] body s = Some (Inr s)"
| "for_each (x # xs) body s =
     (case body x s of
        Some (Inr s') \<Rightarrow> for_each xs body s'
      | Some (Inl e) \<Rightarrow> Some (Inl e)
      | None \<Rightarrow> None)"

text \<open>\<^verbatim>\<open>chunks.extend(r)\<close> for the outcome \<open>r\<close> of a call.\<close>

definition extend_with :: "piece list \<Rightarrow> (py_error + piece list) option \<Rightarrow> (py_error + piece list) option" where
  "extend_with chunks r =
     (case r of
        Some (Inr cs) \<Rightarrow> Some (Inr (chunks @ cs))
      | Some (Inl e) \<Rightarrow> Some (Inl e)
      | None \<Rightarrow> None)"

text \<open>The body of \<^verbatim>\<open>for i, start in enumerate(starts)\<close>.\<close>

definition clause_step :: "ustr \<Rightarrow> int \<Rightarrow> nat list \<Rightarrow> nat \<Rightarrow> piece list \<Rightarrow> (py_error + piece list) option" where
  "clause_step sentence_text max_len starts i clause_chunks =
     (let start = starts ! i;
          end = (if i + 1 < length starts then starts ! (i + 1) else length sentence_text);
          clause = strip (drop start (take end sentence_text))
      in if clause = [] then Some (Inr clause_chunks)
         else if int (length clause) \<le> max_len then
           Some (Inr (clause_chunks @ [\<lparr>chunk = clause, rule = ''clause_subordinator''\<rparr>]))
         else extend_with clause_chunks
                (fallback_split_by_commas_and_conjs clause max_len ''clause_subordinator''))"

definition split_by_subordinators :: "ustr \<Rightarrow> int \<Rightarrow> (py_error + piece list) option" where
  "split_by_subordinators sentence_text max_len =
     (let starts = find_subordinator_positions sentence_text in
      if starts = [] then fallback_split_by_commas_and_conjs sentence_text max_len ''length_fallback''
      else
        (let starts = (if starts ! 0 \<noteq> 0 then 0 # starts else starts)
         in for_each [0 ..< length starts] (clause_step sentence_text max_len starts) []))"

section \<open>Tier 1: commas\<close>

text \<open>The body of \<^verbatim>\<open>for pos in comma_positions\<close>, on the pair of \<^verbatim>\<open>prev\<close> and \<^verbatim>\<open>segments\<close>.\<close>

definition segment_step :: "ustr \<Rightarrow> nat \<Rightarrow> nat \<times> ustr list \<Rightarrow> nat \<times> ustr list" where
  "segment_step sentence_text pos st =
     (let (prev, segments) = st;
          end = pos + 1;
          seg = strip (drop prev (take end sentence_text))
      in (end, if seg \<noteq> [] then segments @ [seg] else segments))"

definition comma_segments :: "ustr \<Rightarrow> nat list \<Rightarrow> ustr list" where
  "comma_segments sentence_text comma_positions =
     (let (prev, segments) = fold (segment_step sentence_text) comma_positions (0, []);
          tail = strip (drop prev sentence_text)
      in if tail \<noteq> [] then segments @ [tail] else segments)"

definition segment_chunks :: "int \<Rightarrow> ustr \<Rightarrow> piece list \<Rightarrow> (py_error + piece list) option" where
  "segment_chunks max_len seg chunks =
     (if int (length seg) \<le> max_len then Some (Inr (chunks @ [\<lparr>chunk = seg, rule = ''comma_first''\<rparr>]))
      else extend_with chunks (split_by_subordinators seg max_len))"

definition split_long_sentence :: "ustr \<Rightarrow> int \<Rightarrow> (py_error + piece list) option" where
  "split_long_sentence sentence_text max_len =
     (let comma_positions = filter (\<lambda>i. sentence_text ! i = comma) [0 ..< length sentence_text] in
      if comma_positions \<noteq> [] then
        for_each (comma_segments sentence_text comma_positions) (segment_chunks max_len) []
      else split_by_subordinators sentence_text max_len)"

section \<open>Paragraphs and the whole pipeline\<close>

definition sentence_chunks :: "int \<Rightarrow> ustr \<Rightarrow> piece list \<Rightarrow> (py_error + piece list) option" where
  "sentence_chunks max_len sent_text0 chunks =
     (let sent_text = strip sent_text0 in
      if sent_text = [] then Some (Inr chunks)
      else if int (length sent_text) \<le> max_len then
        Some (Inr (chunks @ [\<lparr>chunk = sent_text, rule = ''sentence''\<rparr>]))
      else extend_with chunks (split_long_sentence sent_text max_len))"

definition process_paragraph :: "ustr \<Rightarrow> int \<Rightarrow> (py_error + piece list) option" where
  "process_paragraph paragraph max_len =
     for_each (split_into_sentences paragraph) (sentence_chunks max_len) []"

text \<open>The final dict \<^verbatim>\<open>{"chunk": ..., "rule": ..., "length": ...}\<close>.\<close>

record chunk_record = piece +
  length_field :: nat

definition final_chunks :: "piece list \<Rightarrow> chunk_record list" where
  "final_chunks all_chunks =
     map (\<lambda>ch. \<lparr>chunk = strip (chunk ch), rule = rule ch, length_field = length (strip (chunk ch))\<rparr>)
       (filter (\<lambda>ch. strip (chunk ch) \<noteq> []) all_chunks)"

definition chunk_text :: "ustr \<Rightarrow> int \<Rightarrow> (py_error + chunk_record list) option" where
  "chunk_text text max_len =
     (let normalized = normalize_for_tts text;
          paragraphs = split_into_paragraphs normalized
      in case for_each paragraphs (\<lambda>para all_chunks. extend_with all_chunks (process_paragraph para max_len)) [] of
           Some (Inr all_chunks) \<Rightarrow> Some (Inr (final_chunks all_chunks))
         | Some (Inl e) \<Rightarrow> Some (Inl e)
         | None \<Rightarrow> None)"

section \<open>Notions used to state the properties\<close>

text \<open>A text with its whitespace removed: what is left when whitespace is ignored.\<close>

definition ignore_ws :: "ustr \<Rightarrow> ustr" where
  "ignore_ws s = filter (\<lambda>c. \<not> isspace c) s"

text \<open>The four rule tags that Tier 3 forms from a base rule.\<close>

definition fallback_rules :: "string \<Rightarrow> string set" where
  "fallback_rules base_rule = {base_rule @ ''+tail'', base_rule @ ''+comma_split'',
      base_rule @ ''+conj_split'', base_rule @ ''+length_limit''}"

text \<open>Every piece of \<open>new\<close> is non-empty, trimmed, within the budget and tagged with a rule
  of \<open>rules\<close>.\<close>

definition emitted_ok :: "int \<Rightarrow> string set \<Rightarrow> piece list \<Rightarrow> bool" where
  "emitted_ok max_len rules new =
     list_all (\<lambda>p. chunk p \<noteq> [] \<and> strip (chunk p) = chunk p \<and> int (length (chunk p)) \<le> max_len
                  \<and> rule p \<in> rules) new"

text \<open>The texts of the pieces, concatenated in order, whitespace ignored.\<close>

definition ws_concat :: "piece list \<Rightarrow> ustr" where
  "ws_concat ps = concat (map (\<lambda>p. ignore_ws (chunk p)) ps)"

text \<open>
  The cut inside a window \<open>w\<close>, as an offset into the window and a rule suffix. \<open>claimed_cut\<close>
  reads the conjunction step as "the last occurrence of either sequence"; \<open>ordered_cut\<close> tries
  the last \<open>" and "\<close> first and the last \<open>" or "\<close> only when that one is missing or not beyond
  30 percent of the window.
\<close>

definition beyond_30 :: "ustr \<Rightarrow> int \<Rightarrow> bool" where
  "beyond_30 w pos = (pos \<noteq> - 1 \<and> 3 * int (length w) < 10 * pos)"

definition first_comma_cut :: "ustr \<Rightarrow> nat" where
  "first_comma_cut w = length (takeWhile (\<lambda>c. c \<noteq> comma) w) + 1"

definition claimed_cut :: "ustr \<Rightarrow> nat \<times> string" where
  "claimed_cut w =
     (if comma \<in> set w then (first_comma_cut w, ''+comma_split'')
      else
        (let pos = max (py_rfind w (lit '' and '')) (py_rfind w (lit '' or ''))
         in if beyond_30 w pos then (nat pos, ''+conj_split'') else (length w, ''+length_limit'')))"

definition ordered_cut :: "ustr \<Rightarrow> nat \<times> string" where
  "ordered_cut w =
     (if comma \<in> set w then (first_comma_cut w, ''+comma_split'')
      else if beyond_30 w (py_rfind w (lit '' and '')) then (nat (py_rfind w (lit '' and '')), ''+conj_split'')
      else if beyond_30 w (py_rfind w (lit '' or '')) then (nat (py_rfind w (lit '' or '')), ''+conj_split'')
      else (length w, ''+length_limit''))"

text \<open>The window of the loop body: the \<open>max_len\<close> characters from the position \<open>s\<close> on.\<close>

definition window :: "ustr \<Rightarrow> int \<Rightarrow> int \<Rightarrow> ustr" where
  "window text s max_len = take (nat max_len) (drop (nat s) text)"

text \<open>
  Tier 2 in the words of its description. \<open>collect\<close> runs \<open>f\<close> on the items in order and
  concatenates the lists it returns (the first call that raises or does not return decides).
  \<open>clause_texts\<close> are the trimmed spans between consecutive boundaries, the last one reaching
  the end of the text. \<open>clause_output\<close> emits a clause within the budget as it is and hands a
  longer one to Tier 3.
\<close>

fun collect :: "('a \<Rightarrow> (py_error + piece list) option) \<Rightarrow> 'a list \<Rightarrow> (py_error + piece list) option" where
  "collect f [] = Some (Inr [])"
| "collect f (x # xs) =
     (case f x of
        Some (Inr cs) \<Rightarrow> extend_with cs (collect f xs)
      | Some (Inl e) \<Rightarrow> Some (Inl e)
      | None \<Rightarrow> None)"

definition clause_boundaries :: "nat list \<Rightarrow> nat list" where
  "clause_boundaries starts = (if hd starts \<noteq> 0 then 0 # starts else starts)"


definition clause_output :: "int \<Rightarrow> ustr \<Rightarrow> (py_error + piece list) option" where
  "clause_output max_len clause =
     (if int (length clause) \<le> max_len then Some (Inr [\<lparr>chunk = clause, rule = ''clause_subordinator''\<rparr>])
      else fallback_split_by_commas_and_conjs clause max_len ''clause_subordinator'')"


text \<open>Every rule tag of the pipeline.\<close>

definition all_rules :: "string set" where
  "all_rules = {''sentence'', ''comma_first'', ''clause_subordinator''}
     \<union> fallback_rules ''clause_subordinator'' \<union> fallback_rules ''length_fallback''"

text \<open>The span that the loop takes at index \<open>i\<close>.\<close>

definition span_at :: "ustr \<Rightarrow> nat list \<Rightarrow> nat \<Rightarrow> ustr" where
  "span_at t bs i = drop (bs ! i) (take (if i + 1 < length bs then bs ! (i + 1) else length t) t)"

text \<open>What the loop adds for the span at index \<open>i\<close>: nothing for an all-whitespace span.\<close>

definition span_output :: "ustr \<Rightarrow> int \<Rightarrow> nat list \<Rightarrow> nat \<Rightarrow> (py_error + piece list) option" where
  "span_output t m bs i =
     (if strip (span_at t bs i) = [] then Some (Inr []) else clause_output m (strip (span_at t bs i)))"

text \<open>Texts that are non-empty and trimmed.\<close>

definition good_texts :: "ustr list \<Rightarrow> bool" where
  "good_texts segs = list_all (\<lambda>s. s \<noteq> [] \<and> strip s = s) segs"

text \<open>What the loop over the comma segments adds for one segment.\<close>

definition segment_output :: "int \<Rightarrow> ustr \<Rightarrow> (py_error + piece list) option" where
  "segment_output m seg =
     (if int (length seg) \<le> m then Some (Inr [\<lparr>chunk = seg, rule = ''comma_first''\<rparr>])
      else split_by_subordinators seg m)"

text \<open>What the loop over the sentences adds for one sentence.\<close>

definition sentence_output :: "int \<Rightarrow> ustr \<Rightarrow> (py_error + piece list) option" where
  "sentence_output m sent_text0 =
     (let sent_text = strip sent_text0 in
      if sent_text = [] then Some (Inr [])
      else if int (length sent_text) \<le> m then Some (Inr [\<lparr>chunk = sent_text, rule = ''sentence''\<rparr>])
      else split_long_sentence sent_text m)"



section \<open>Evaluation on concrete inputs\<close>

text \<open>The defining equations that a concrete run unfolds.\<close>

lemmas char_defs = hyphen_def en_dash_def em_dash_def comma_def space_def newline_def underscore_def
  is_dash_def isspace_def isalnum_def ascii_letter_def ascii_lower_def is_word_def word_boundary_def
  lit_def terminal_mark_def

lemmas fallback_eval = fallback_split_by_commas_and_conjs_def fallback_loop.simps fallback_body_def
  skip_spaces.simps py_index_def py_slice_def adjust_index_def py_find_char_def py_rfind_def
  choose_cut_def append_segment_def strip_def upt_rec

lemmas sub_eval = find_subordinator_positions_def SUBORDINATORS_def finditer_word.simps word_at_def
  ci_match_def split_by_subordinators_def clause_step_def extend_with_def

lemmas normalize_eval = normalize_for_tts_def discourse_sub.simps match_word_dash_word_def
  replace_word_dash_discourse_def replace_aside_def DISCOURSE_def residual_dashes_def dash_step_def

lemmas pipeline_eval = chunk_text_def final_chunks_def process_paragraph_def sentence_chunks_def
  split_long_sentence_def comma_segments_def segment_step_def segment_chunks_def
  split_into_sentences_def sentence_split.simps split_into_paragraphs_def para_split.simps
  blank_line_len_def

section \<open>Facts about trimming and ignoring whitespace\<close>

lemma ignore_ws_append: "ignore_ws (a @ b) = ignore_ws a @ ignore_ws b"
  by (simp add: ignore_ws_def)

lemma ignore_ws_dropWhile: "ignore_ws (dropWhile isspace s) = ignore_ws s"
  by (induction s) (auto simp: ignore_ws_def)

lemma ignore_ws_rev: "ignore_ws (rev s) = rev (ignore_ws s)"
  by (simp add: ignore_ws_def rev_filter)

lemma ignore_ws_strip: "ignore_ws (strip s) = ignore_ws s"
  by (simp add: strip_def ignore_ws_rev ignore_ws_dropWhile)

lemma rev_split: "xs = rev (dropWhile P (rev xs)) @ rev (takeWhile P (rev xs))"
  by (metis rev_append rev_rev_ident takeWhile_dropWhile_id)

lemma strip_decomp:
  "\<exists>a b. s = a @ strip s @ b \<and> (\<forall>c\<in>set a. isspace c) \<and> (\<forall>c\<in>set b. isspace c)"
proof -
  let ?d = "dropWhile isspace s"
  let ?b = "rev (takeWhile isspace (rev ?d))"
  have d: "?d = strip s @ ?b" unfolding strip_def by (rule rev_split)
  have "s = takeWhile isspace s @ ?d" by simp
  with d have "s = takeWhile isspace s @ strip s @ ?b" by simp
  moreover have "\<forall>c\<in>set (takeWhile isspace s). isspace c" by (auto dest: set_takeWhileD)
  moreover have "\<forall>c\<in>set ?b. isspace c" by (auto dest: set_takeWhileD)
  ultimately show ?thesis by blast
qed

lemma length_strip: "length (strip s) \<le> length s"
proof -
  obtain a b where "s = a @ strip s @ b" using strip_decomp by blast
  then have "length s = length a + length (strip s) + length b" by (metis length_append add.assoc)
  then show ?thesis by simp
qed

lemma strip_hd: "strip s \<noteq> [] \<Longrightarrow> \<not> isspace (hd (strip s))"
proof -
  assume a: "strip s \<noteq> []"
  let ?d = "dropWhile isspace s"
  have d: "?d \<noteq> []"
  proof
    assume e: "?d = []"
    have "strip s = []" unfolding strip_def e by simp
    with a show False by simp
  qed
  have h: "\<not> isspace (hd ?d)" using d by (rule hd_dropWhile)
  have "?d = strip s @ rev (takeWhile isspace (rev ?d))" unfolding strip_def by (rule rev_split)
  then have "hd ?d = hd (strip s)" using a by (metis hd_append2)
  with h show ?thesis by simp
qed

lemma strip_last: "strip s \<noteq> [] \<Longrightarrow> \<not> isspace (last (strip s))"
proof -
  assume a: "strip s \<noteq> []"
  then have "dropWhile isspace (rev (dropWhile isspace s)) \<noteq> []" by (simp add: strip_def)
  then have "\<not> isspace (hd (dropWhile isspace (rev (dropWhile isspace s))))" by (rule hd_dropWhile)
  then show ?thesis using a by (simp add: strip_def last_rev)
qed

lemma strip_id: "s = [] \<or> (\<not> isspace (hd s) \<and> \<not> isspace (last s)) \<Longrightarrow> strip s = s"
proof (cases s)
  case Nil then show ?thesis by (simp add: strip_def)
next
  case (Cons a t)
  assume "s = [] \<or> (\<not> isspace (hd s) \<and> \<not> isspace (last s))"
  with Cons have h: "\<not> isspace a" and l: "\<not> isspace (last s)" by auto
  have 1: "dropWhile isspace s = s" using Cons h by simp
  have ne: "rev s \<noteq> []" using Cons by simp
  have "hd (rev s) = last s" using Cons by (simp add: hd_rev)
  with l have "\<not> isspace (hd (rev s))" by simp
  with ne have 2: "dropWhile isspace (rev s) = rev s" by (cases "rev s") simp_all
  show ?thesis by (simp add: strip_def 1 2)
qed

lemma strip_Nil_iff: "strip s = [] \<longleftrightarrow> (\<forall>c\<in>set s. isspace c)"
proof
  assume e: "strip s = []"
  obtain a b where "s = a @ strip s @ b" "\<forall>c\<in>set a. isspace c" "\<forall>c\<in>set b. isspace c"
    using strip_decomp by blast
  with e have "s = a @ b" by simp
  then have "set s = set a \<union> set b" by simp
  with \<open>\<forall>c\<in>set a. isspace c\<close> \<open>\<forall>c\<in>set b. isspace c\<close> show "\<forall>c\<in>set s. isspace c" by blast
next
  assume "\<forall>c\<in>set s. isspace c"
  then have e: "dropWhile isspace s = []" by (induction s) auto
  show "strip s = []" unfolding strip_def e by simp
qed

lemma strip_strip: "strip (strip s) = strip s"
  by (rule strip_id) (auto simp: strip_hd strip_last)

section \<open>Facts about indexing, slicing and searching\<close>

lemma adjust_index_nonneg: "0 \<le> i \<Longrightarrow> adjust_index i n = min (nat i) n"
  by (simp add: adjust_index_def)

lemma py_slice_nonneg: "0 \<le> i \<Longrightarrow> 0 \<le> j \<Longrightarrow> py_slice xs i j = drop (nat i) (take (nat j) xs)"
  by (simp add: py_slice_def adjust_index_nonneg min_def)

lemma py_index_nonneg: "0 \<le> i \<Longrightarrow> i < int (length xs) \<Longrightarrow> py_index xs i = Inr (xs ! nat i)"
  by (simp add: py_index_def)

lemma skip_spaces_nonneg:
  "0 \<le> start \<Longrightarrow> \<exists>s. skip_spaces t start = Inr s \<and> start \<le> s
     \<and> (s < int (length t) \<longrightarrow> \<not> isspace (t ! nat s))
     \<and> (start \<le> int (length t) \<longrightarrow> s \<le> int (length t))
     \<and> ignore_ws (drop (nat s) t) = ignore_ws (drop (nat start) t)"
proof (induction t start rule: skip_spaces.induct)
  case (1 t start)
  show ?case
  proof (cases "start < int (length t)")
    case False
    then show ?thesis by (subst skip_spaces.simps) simp
  next
    case lt: True
    with "1.prems" have idx: "py_index t start = Inr (t ! nat start)" by (simp add: py_index_nonneg)
    show ?thesis
    proof (cases "isspace (t ! nat start)")
      case False
      with lt idx show ?thesis by (subst skip_spaces.simps) simp
    next
      case sp: True
      from "1.IH"[OF lt idx sp] "1.prems"
      obtain s where s: "skip_spaces t (start + 1) = Inr s" "start + 1 \<le> s"
        "s < int (length t) \<longrightarrow> \<not> isspace (t ! nat s)"
        "start + 1 \<le> int (length t) \<longrightarrow> s \<le> int (length t)"
        "ignore_ws (drop (nat s) t) = ignore_ws (drop (nat (start + 1)) t)" by auto
      have d: "drop (nat start) t = t ! nat start # drop (nat (start + 1)) t"
        using lt "1.prems" by (simp add: Cons_nth_drop_Suc nat_add_distrib)
      have "ignore_ws (drop (nat start) t) = ignore_ws (drop (nat (start + 1)) t)"
        unfolding d using sp by (simp add: ignore_ws_def)
      with s lt sp idx show ?thesis by (subst skip_spaces.simps) auto
    qed
  qed
qed

lemma find_Some_range:
  "find P [a..<b] = Some k \<Longrightarrow> a \<le> k \<and> k < b \<and> P k \<and> (\<forall>j. a \<le> j \<and> j < k \<longrightarrow> \<not> P j)"
proof -
  assume "find P [a..<b] = Some k"
  then obtain i where i: "i < b - a" "P (a + i)" "k = a + i" "\<forall>j<i. \<not> P (a + j)"
    by (auto simp: find_Some_iff)
  have "\<not> P j" if "a \<le> j" "j < k" for j
  proof -
    from that i have "j - a < i" by simp
    with i have "\<not> P (a + (j - a))" by blast
    with that show ?thesis by simp
  qed
  with i show ?thesis by auto
qed

lemma py_find_char_found:
  assumes "py_find_char c text i j \<noteq> - 1" "0 \<le> i" "0 \<le> j"
  shows "\<exists>k. py_find_char c text i j = int k \<and> nat i \<le> k \<and> k < nat j \<and> k < length text \<and> text ! k = c
           \<and> (\<forall>m. nat i \<le> m \<and> m < k \<longrightarrow> text ! m \<noteq> c)"
proof -
  let ?a = "min (nat i) (length text)" and ?b = "min (nat j) (length text)"
  from assms obtain k where k: "find (\<lambda>k. text ! k = c) [?a..<?b] = Some k"
    and r: "py_find_char c text i j = int k"
    by (auto simp: py_find_char_def adjust_index_nonneg split: option.splits)
  from find_Some_range[OF k] have "?a \<le> k" "k < ?b" "text ! k = c" "\<forall>m. ?a \<le> m \<and> m < k \<longrightarrow> text ! m \<noteq> c"
    by auto
  then show ?thesis using r by (intro exI[of _ k]) auto
qed

lemma py_find_char_none:
  assumes "py_find_char c text i j = - 1" "0 \<le> i" "0 \<le> j" "j \<le> int (length text)"
  shows "c \<notin> set (py_slice text i j)"
proof -
  from assms have n: "find (\<lambda>k. text ! k = c) [nat i..<nat j] = None \<or> nat j \<le> nat i"
    by (auto simp: py_find_char_def adjust_index_nonneg min_def split: option.splits if_splits)
  show ?thesis
  proof
    assume "c \<in> set (py_slice text i j)"
    then have "c \<in> set (drop (nat i) (take (nat j) text))" using assms by (simp add: py_slice_nonneg)
    then obtain m where m: "m < length (drop (nat i) (take (nat j) text))" "drop (nat i) (take (nat j) text) ! m = c"
      by (auto simp: in_set_conv_nth)
    then have "nat i + m < nat j" "text ! (nat i + m) = c" using assms by auto
    with n show False by (auto simp: find_None_iff)
  qed
qed

lemma py_rfind_found:
  assumes "py_rfind s sub \<noteq> - 1"
  shows "\<exists>k. py_rfind s sub = int k \<and> k + length sub \<le> length s \<and> take (length sub) (drop k s) = sub"
proof -
  from assms obtain k where k: "find (\<lambda>k. take (length sub) (drop k s) = sub) (rev [0 ..< Suc (length s - length sub)]) = Some k"
     and r: "py_rfind s sub = int k"
    by (auto simp: py_rfind_def split: option.splits)
  from k obtain i where "take (length sub) (drop (rev [0 ..< Suc (length s - length sub)] ! i) s) = sub"
    "k = rev [0 ..< Suc (length s - length sub)] ! i"
    unfolding find_Some_iff by blast
  then have t: "take (length sub) (drop k s) = sub" by simp
  have "length (take (length sub) (drop k s)) = min (length sub) (length s - k)" by simp
  with t have "length sub = min (length sub) (length s - k)" by simp
  then have "length sub \<le> length s - k" by (metis min.cobounded2)
  then have "k + length sub \<le> length s \<or> length sub = 0" by arith
  moreover from k have "k \<in> set (rev [0 ..< Suc (length s - length sub)])"
    unfolding find_Some_iff by (metis nth_mem)
  then have "k \<le> length s - length sub" by auto
  ultimately have "k + length sub \<le> length s" by auto
  with t r show ?thesis by blast
qed

section \<open>Tier 3 emits bounded pieces and loses no text\<close>

lemma emitted_ok_Nil: "emitted_ok m R []"
  by (simp add: emitted_ok_def)

lemma emitted_ok_append: "emitted_ok m R (a @ b) \<longleftrightarrow> emitted_ok m R a \<and> emitted_ok m R b"
  by (auto simp: emitted_ok_def)

lemma emitted_ok_mono: "emitted_ok m R a \<Longrightarrow> R \<subseteq> R' \<Longrightarrow> emitted_ok m R' a"
  by (auto simp: emitted_ok_def list_all_iff)

lemma ws_concat_Nil: "ws_concat [] = []"
  by (simp add: ws_concat_def)

lemma ws_concat_append: "ws_concat (a @ b) = ws_concat a @ ws_concat b"
  by (simp add: ws_concat_def)

lemma append_segment_eq:
  "append_segment chunks seg r = chunks @ (if seg \<noteq> [] then [\<lparr>chunk = seg, rule = r\<rparr>] else [])"
  by (simp add: append_segment_def)

lemma ignore_ws_Nil_iff: "ignore_ws s = [] \<longleftrightarrow> (\<forall>c\<in>set s. isspace c)"
  by (auto simp: ignore_ws_def filter_empty_conv)

lemma segment_props:
  assumes "0 \<le> s" "s \<le> c_at" "c_at \<le> int (length t)" "c_at - s \<le> max_len" "r \<in> R"
  defines "seg \<equiv> strip (py_slice t s c_at)"
  defines "new \<equiv> (if seg \<noteq> [] then [\<lparr>chunk = seg, rule = r\<rparr>] else [])"
  shows "emitted_ok max_len R new" "ws_concat new @ ignore_ws (drop (nat c_at) t) = ignore_ws (drop (nat s) t)"
proof -
  have sl: "py_slice t s c_at = drop (nat s) (take (nat c_at) t)"
    using assms by (simp add: py_slice_nonneg)
  have "length (py_slice t s c_at) \<le> nat c_at - nat s" unfolding sl by simp
  with length_strip[of "py_slice t s c_at"] have "int (length seg) \<le> c_at - s"
    unfolding seg_def using assms(1,2) by linarith
  with assms(4) have "int (length seg) \<le> max_len" by simp
  then show "emitted_ok max_len R new"
    using assms(5) by (simp add: emitted_ok_def new_def seg_def strip_strip)
  have "ws_concat new = ignore_ws seg"
    by (auto simp: new_def ws_concat_def ignore_ws_def)
  also have "\<dots> = ignore_ws (drop (nat s) (take (nat c_at) t))"
    by (simp add: seg_def ignore_ws_strip sl)
  finally have "ws_concat new @ ignore_ws (drop (nat c_at) t)
      = ignore_ws (drop (nat s) (take (nat c_at) t) @ drop (nat c_at) t)"
    by (simp add: ignore_ws_append)
  moreover have "drop (nat s) (take (nat c_at) t) @ drop (nat c_at) t = drop (nat s) t"
  proof -
    have "nat s - length (take (nat c_at) t) = 0" using assms by simp
    moreover have "drop (nat s) (take (nat c_at) t @ drop (nat c_at) t)
        = drop (nat s) (take (nat c_at) t) @ drop (nat s - length (take (nat c_at) t)) (drop (nat c_at) t)"
      by (rule drop_append)
    ultimately have "drop (nat s) (take (nat c_at) t @ drop (nat c_at) t)
        = drop (nat s) (take (nat c_at) t) @ drop (nat c_at) t" by simp
    moreover have "take (nat c_at) t @ drop (nat c_at) t = t" by (rule append_take_drop_id)
    ultimately show ?thesis by simp
  qed
  ultimately show "ws_concat new @ ignore_ws (drop (nat c_at) t) = ignore_ws (drop (nat s) t)" by simp
qed

lemma conj_search_Some:
  "conj_search cs w start = Some m \<Longrightarrow> start < m \<and> m \<le> start + int (length w)"
proof (induction cs)
  case Nil then show ?case by simp
next
  case (Cons cj cs)
  show ?case
  proof (cases "py_rfind w cj \<noteq> - 1 \<and> 3 * int (length w) < 10 * py_rfind w cj")
    case True
    then obtain k where k: "py_rfind w cj = int k" "k + length cj \<le> length w"
      using py_rfind_found by blast
    with True Cons.prems show ?thesis by (auto simp: Let_def)
  next
    case False
    with Cons show ?thesis by (auto simp: Let_def)
  qed
qed

lemma fallback_rules_mem:
  "base @ ''+tail'' \<in> fallback_rules base" "base @ ''+comma_split'' \<in> fallback_rules base"
  "base @ ''+conj_split'' \<in> fallback_rules base" "base @ ''+length_limit'' \<in> fallback_rules base"
  by (simp_all add: fallback_rules_def)

lemma choose_cut_bounds:
  assumes s_nn: "0 \<le> s" and lt: "s < we" and le: "we \<le> int (length t)"
  shows "s < fst (choose_cut t base s we) \<and> fst (choose_cut t base s we) \<le> we
         \<and> snd (choose_cut t base s we) \<in> fallback_rules base"
proof -
  have we_nn: "0 \<le> we" using s_nn lt by simp
  have wl: "int (length (py_slice t s we)) = we - s"
    using s_nn we_nn lt le by (simp add: py_slice_nonneg)
  define comma_pos where "comma_pos = py_find_char comma t s we"
  show ?thesis
  proof (cases "comma_pos \<noteq> - 1")
    case True
    from py_find_char_found[OF True[unfolded comma_pos_def] s_nn we_nn]
    obtain k where "comma_pos = int k" "nat s \<le> k" "k < nat we"
      unfolding comma_pos_def by blast
    then show ?thesis using True s_nn
      by (auto simp: choose_cut_def comma_pos_def[symmetric] fallback_rules_mem)
  next
    case nc: False
    show ?thesis
    proof (cases "conj_search [lit '' and '', lit '' or ''] (py_slice t s we) s")
      case None
      then show ?thesis using nc lt
        by (simp add: choose_cut_def comma_pos_def[symmetric] fallback_rules_mem del: conj_search.simps)
    next
      case (Some mp)
      from conj_search_Some[OF Some] wl have "s < mp \<and> mp \<le> we" by simp
      then show ?thesis using nc Some
        by (simp add: choose_cut_def comma_pos_def[symmetric] fallback_rules_mem del: conj_search.simps)
    qed
  qed
qed

lemma fallback_body_cases:
  assumes m: "1 \<le> max_len" and s0: "0 \<le> start0"
  shows "(\<exists>new. fallback_body t max_len base start0 chunks = Break (chunks @ new)
            \<and> emitted_ok max_len (fallback_rules base) new
            \<and> ws_concat new = ignore_ws (drop (nat start0) t))
       \<or> (\<exists>c_at new. fallback_body t max_len base start0 chunks = Continue c_at (chunks @ new)
            \<and> start0 < c_at \<and> c_at \<le> int (length t)
            \<and> emitted_ok max_len (fallback_rules base) new
            \<and> ws_concat new @ ignore_ws (drop (nat c_at) t) = ignore_ws (drop (nat start0) t))"
proof -
  let ?len = "int (length t)"
  from skip_spaces_nonneg[OF s0, of t] obtain s where
    sk: "skip_spaces t start0 = Inr s" and s_ge: "start0 \<le> s"
    and ws: "ignore_ws (drop (nat s) t) = ignore_ws (drop (nat start0) t)" by blast
  have s_nn: "0 \<le> s" using s0 s_ge by simp
  show ?thesis
  proof (cases "s \<ge> ?len")
    case True
    then have "drop (nat s) t = []" by simp
    with ws have "ws_concat [] = ignore_ws (drop (nat start0) t)" by (simp add: ws_concat_def ignore_ws_def)
    moreover have "fallback_body t max_len base start0 chunks = Break (chunks @ [])"
      using sk True by (simp add: fallback_body_def)
    ultimately show ?thesis using emitted_ok_Nil by blast
  next
    case lt: False
    show ?thesis
    proof (cases "?len - s \<le> max_len")
      case True
      let ?seg = "strip (py_slice t s ?len)"
      let ?new = "if ?seg \<noteq> [] then [\<lparr>chunk = ?seg, rule = base @ ''+tail''\<rparr>] else []"
      have b: "fallback_body t max_len base start0 chunks = Break (chunks @ ?new)"
        using sk lt True by (simp add: fallback_body_def append_segment_eq)
      from lt have le: "s \<le> ?len" by simp
      have "emitted_ok max_len (fallback_rules base) ?new"
        by (rule segment_props(1)[OF s_nn le _ True fallback_rules_mem(1)]) simp
      moreover have "ws_concat ?new @ ignore_ws (drop (nat ?len) t) = ignore_ws (drop (nat s) t)"
        by (rule segment_props(2)[OF s_nn le _ True fallback_rules_mem(1)]) simp
      then have "ws_concat ?new = ignore_ws (drop (nat start0) t)" using ws by (simp add: ignore_ws_def)
      ultimately show ?thesis using b by blast
    next
      case big: False
      define window_end where "window_end = min (s + max_len) ?len"
      have we: "window_end = s + max_len" using big by (simp add: window_end_def)
      have we_le: "window_end \<le> ?len" by (simp add: window_end_def)
      have we_nn: "0 \<le> window_end" using we s_nn m by simp
      define c_at where "c_at = fst (choose_cut t base s window_end)"
      define r where "r = snd (choose_cut t base s window_end)"
      let ?seg = "strip (py_slice t s c_at)"
      let ?new = "if ?seg \<noteq> [] then [\<lparr>chunk = ?seg, rule = r\<rparr>] else []"
      have b: "fallback_body t max_len base start0 chunks = Continue c_at (chunks @ ?new)"
        using sk lt big
        by (simp add: fallback_body_def append_segment_eq Let_def window_end_def[symmetric]
            c_at_def r_def split_beta)
      have "s < window_end" using we m by simp
      from choose_cut_bounds[OF s_nn this we_le, of base]
      have bounds: "s < c_at \<and> c_at \<le> window_end \<and> r \<in> fallback_rules base"
        by (simp add: c_at_def r_def)
      then have 1: "s \<le> c_at" and 2: "c_at \<le> ?len" and 3: "c_at - s \<le> max_len" and 4: "r \<in> fallback_rules base"
        using we we_le by auto
      note sp = segment_props[OF s_nn 1 2 3 4]
      from sp(2) ws have "ws_concat ?new @ ignore_ws (drop (nat c_at) t) = ignore_ws (drop (nat start0) t)" by simp
      moreover have "start0 < c_at" using bounds s_ge by simp
      ultimately show ?thesis using b sp(1) 2 by blast
    qed
  qed
qed

lemma fallback_loop_total:
  assumes m: "1 \<le> max_len"
  shows "0 \<le> start \<Longrightarrow> \<exists>new. fallback_loop t max_len base start chunks = Some (Inr (chunks @ new))
            \<and> emitted_ok max_len (fallback_rules base) new
            \<and> ws_concat new = ignore_ws (drop (nat start) t)"
proof (induction "nat (int (length t) - start)" arbitrary: start chunks rule: less_induct)
  case less
  show ?case
  proof (cases "start < int (length t)")
    case False
    then have "drop (nat start) t = []" by simp
    then have "ws_concat [] = ignore_ws (drop (nat start) t)" by (simp add: ws_concat_def ignore_ws_def)
    moreover have "fallback_loop t max_len base start chunks = Some (Inr (chunks @ []))"
      using False by (subst fallback_loop.simps) simp
    ultimately show ?thesis using emitted_ok_Nil by blast
  next
    case lt: True
    from fallback_body_cases[OF m less.prems, of t base chunks]
    show ?thesis
    proof (elim disjE exE conjE)
      fix new
      assume "fallback_body t max_len base start chunks = Break (chunks @ new)"
        and "emitted_ok max_len (fallback_rules base) new"
        and "ws_concat new = ignore_ws (drop (nat start) t)"
      moreover from this(1) lt have "fallback_loop t max_len base start chunks = Some (Inr (chunks @ new))"
        by (subst fallback_loop.simps) simp
      ultimately show ?thesis by blast
    next
      fix c_at new
      assume b: "fallback_body t max_len base start chunks = Continue c_at (chunks @ new)"
        and c: "start < c_at" "c_at \<le> int (length t)"
        and ok: "emitted_ok max_len (fallback_rules base) new"
        and w: "ws_concat new @ ignore_ws (drop (nat c_at) t) = ignore_ws (drop (nat start) t)"
      have "nat (int (length t) - c_at) < nat (int (length t) - start)" using c lt by simp
      moreover have "0 \<le> c_at" using c less.prems by simp
      ultimately obtain new' where
        r: "fallback_loop t max_len base c_at (chunks @ new) = Some (Inr ((chunks @ new) @ new'))"
        and ok': "emitted_ok max_len (fallback_rules base) new'"
        and w': "ws_concat new' = ignore_ws (drop (nat c_at) t)"
        using less.hyps by blast
      have "fallback_loop t max_len base start chunks = Some (Inr (chunks @ (new @ new')))"
        using b lt r by (subst fallback_loop.simps) simp
      moreover have "emitted_ok max_len (fallback_rules base) (new @ new')"
        using ok ok' by (simp add: emitted_ok_append)
      moreover have "ws_concat (new @ new') = ignore_ws (drop (nat start) t)"
        using w w' by (simp add: ws_concat_append)
      ultimately show ?thesis by blast
    qed
  qed
qed

subsection \<open>Claim C1\<close>

lemma fallback_example:
  "fallback_split_by_commas_and_conjs (lit ''one, two and three four'') 8 ''length_fallback'' =
     Some (Inr [\<lparr>chunk = lit ''one,'', rule = ''length_fallback+comma_split''\<rparr>,
                \<lparr>chunk = lit ''two'', rule = ''length_fallback+conj_split''\<rparr>,
                \<lparr>chunk = lit ''and thre'', rule = ''length_fallback+length_limit''\<rparr>,
                \<lparr>chunk = lit ''e four'', rule = ''length_fallback+tail''\<rparr>])"
  by (simp add: fallback_eval char_defs)

text \<open>
  C1. For every text, every base rule and every \<open>max_len \<ge> 1\<close>, the Tier-3 splitter
  \<^verbatim>\<open>fallback_split_by_commas_and_conjs\<close> returns a list, each of its fragments carries the base
  rule with one of the suffixes \<open>+tail\<close>, \<open>+comma_split\<close>, \<open>+conj_split\<close>, \<open>+length_limit\<close>, and the
  trimmed text of each fragment, the final \<open>+tail\<close> fragment included, has at most \<open>max_len\<close>
  characters.
\<close>

theorem fallback_fragments_within_max_len:
  assumes "1 \<le> max_len"
  shows "\<exists>cs. fallback_split_by_commas_and_conjs t max_len base_rule = Some (Inr cs)
           \<and> list_all (\<lambda>p. rule p \<in> fallback_rules base_rule
                              \<and> int (length (strip (chunk p))) \<le> max_len) cs"
proof -
  from fallback_loop_total[OF assms, of 0 t base_rule "[]"]
  obtain new where r: "fallback_loop t max_len base_rule 0 [] = Some (Inr new)"
    and ok: "emitted_ok max_len (fallback_rules base_rule) new" by auto
  from ok have "list_all (\<lambda>p. rule p \<in> fallback_rules base_rule
      \<and> int (length (strip (chunk p))) \<le> max_len) new"
    by (auto simp: emitted_ok_def list_all_iff)
  with r show ?thesis by (simp add: fallback_split_by_commas_and_conjs_def)
qed

theorem fallback_fragments_within_max_len_witness:
  "(1::int) \<le> 8 \<and> (\<exists>cs. fallback_split_by_commas_and_conjs (lit ''one, two and three four'') 8
        ''length_fallback'' = Some (Inr cs)
      \<and> list_all (\<lambda>p. rule p \<in> fallback_rules ''length_fallback''
                         \<and> int (length (strip (chunk p))) \<le> 8) cs)"
  using fallback_fragments_within_max_len[of 8 "lit ''one, two and three four''" "''length_fallback''"]
  by simp

section \<open>The cut point of a window\<close>

lemma length_takeWhile_first:
  assumes "k < length w" "w ! k = c" "\<forall>m<k. w ! m \<noteq> c"
  shows "length (takeWhile (\<lambda>x. x \<noteq> c) w) = k"
proof -
  have "k \<le> length (takeWhile (\<lambda>x. x \<noteq> c) w)"
    using assms by (intro length_takeWhile_less_P_nth) auto
  moreover have "\<not> k < length (takeWhile (\<lambda>x. x \<noteq> c) w)"
  proof
    assume lt: "k < length (takeWhile (\<lambda>x. x \<noteq> c) w)"
    then have "takeWhile (\<lambda>x. x \<noteq> c) w ! k \<in> set (takeWhile (\<lambda>x. x \<noteq> c) w)" by simp
    then have "takeWhile (\<lambda>x. x \<noteq> c) w ! k \<noteq> c" by (auto dest: set_takeWhileD)
    moreover have "takeWhile (\<lambda>x. x \<noteq> c) w ! k = w ! k" using lt by (rule takeWhile_nth)
    ultimately show False using assms by simp
  qed
  ultimately show ?thesis by simp
qed

lemma py_find_char_window:
  assumes s: "0 \<le> s" "s \<le> e" "e \<le> int (length t)"
  defines "w \<equiv> drop (nat s) (take (nat e) t)"
  shows "py_find_char c t s e = (if c \<in> set w then s + int (length (takeWhile (\<lambda>x. x \<noteq> c) w)) else - 1)"
proof (cases "py_find_char c t s e = - 1")
  case True
  from py_find_char_none[OF True] s have "c \<notin> set w" by (simp add: w_def py_slice_nonneg)
  with True show ?thesis by simp
next
  case False
  from s have e0: "0 \<le> e" by simp
  from py_find_char_found[OF False s(1) e0] obtain k where
    k: "py_find_char c t s e = int k" "nat s \<le> k" "k < nat e" "k < length t" "t ! k = c"
       "\<forall>m. nat s \<le> m \<and> m < k \<longrightarrow> t ! m \<noteq> c" by blast
  have lw: "length w = nat e - nat s" using s by (simp add: w_def)
  have nth: "w ! i = t ! (nat s + i)" if "i < length w" for i
    using that s by (simp add: w_def)
  have 1: "k - nat s < length w" using k(2,3) lw by arith
  have 2: "w ! (k - nat s) = c" using nth[OF 1] k by simp
  have 3: "\<forall>m<k - nat s. w ! m \<noteq> c"
  proof (intro allI impI)
    fix m assume m: "m < k - nat s"
    then have "m < length w" using 1 by simp
    from nth[OF this] k(6) m show "w ! m \<noteq> c" by simp
  qed
  have "length (takeWhile (\<lambda>x. x \<noteq> c) w) = k - nat s" by (rule length_takeWhile_first[OF 1 2 3])
  moreover have "c \<in> set w" using 1 2 by (metis nth_mem)
  ultimately show ?thesis using k s by simp
qed

lemma conj_search_two:
  "conj_search [a, b] w s =
     (if beyond_30 w (py_rfind w a) then Some (s + py_rfind w a)
      else if beyond_30 w (py_rfind w b) then Some (s + py_rfind w b) else None)"
  by (simp add: beyond_30_def Let_def)

lemma choose_cut_ordered:
  assumes s: "0 \<le> s" "s < e" "e \<le> int (length t)"
  defines "w \<equiv> drop (nat s) (take (nat e) t)"
  shows "choose_cut t base s e = (s + int (fst (ordered_cut w)), base @ snd (ordered_cut w))"
proof -
  have sl: "py_slice t s e = w" using s by (simp add: w_def py_slice_nonneg)
  have lw: "int (length w) = e - s" using s by (simp add: w_def)
  have f: "py_find_char comma t s e = (if comma \<in> set w then s + int (length (takeWhile (\<lambda>x. x \<noteq> comma) w)) else - 1)"
    unfolding w_def using s by (intro py_find_char_window) auto
  show ?thesis
  proof (cases "comma \<in> set w")
    case True
    then show ?thesis using s by (simp add: choose_cut_def f ordered_cut_def first_comma_cut_def)
  next
    case nc: False
    have nn: "beyond_30 w p \<Longrightarrow> 0 \<le> p" for p by (auto simp: beyond_30_def)
    show ?thesis using nc nn lw
      by (simp add: choose_cut_def f sl conj_search_two ordered_cut_def del: conj_search.simps)
  qed
qed

subsection \<open>Claim C3\<close>

lemmas cut_eval = claimed_cut_def ordered_cut_def beyond_30_def first_comma_cut_def window_def

text \<open>
  C3, as stated, read with "the last occurrence of either sequence": the text below has no
  comma in its window of 20 characters; \<open>" and "\<close> starts at offset 7 and \<open>" or "\<close>, the later of
  the two, at offset 14, both beyond 30 percent of the window. The claim cuts at 14; the loop
  body cuts at 7.
\<close>

theorem window_cut_counterexample:
  "fallback_body (lit ''aaaaaaa and bb or cc dddd'') 20 ''length_fallback'' 0 [] =
     Continue 7 [\<lparr>chunk = lit ''aaaaaaa'', rule = ''length_fallback+conj_split''\<rparr>]
   \<and> claimed_cut (window (lit ''aaaaaaa and bb or cc dddd'') 0 20) = (14, ''+conj_split'')"
  by (simp add: fallback_eval char_defs cut_eval)

text \<open>
  C3, amended. Let \<open>max_len \<ge> 1\<close>, let \<open>s\<close> be the position after the leading whitespace has
  been skipped, and let more than \<open>max_len\<close> characters remain from \<open>s\<close>. With \<open>w\<close> the window of
  \<open>max_len\<close> characters from \<open>s\<close>, the loop body goes on at \<open>s + k\<close> and emits the trimmed first \<open>k\<close>
  characters of \<open>w\<close>, where \<open>k\<close> and the rule suffix are: just after the first comma of \<open>w\<close> with
  \<open>+comma_split\<close>; else the start of the last \<open>" and "\<close> in \<open>w\<close> if that start exceeds 30 percent
  of the length of \<open>w\<close>, else the start of the last \<open>" or "\<close> in \<open>w\<close> under the same condition, both
  with \<open>+conj_split\<close>; else the end of \<open>w\<close> with \<open>+length_limit\<close>.
\<close>

theorem window_cut_priority:
  assumes m: "1 \<le> max_len" and s0: "0 \<le> start0" and sk: "skip_spaces t start0 = Inr s"
    and big: "max_len < int (length t) - s"
  shows "fallback_body t max_len base start0 chunks =
     Continue (s + int (fst (ordered_cut (window t s max_len))))
       (append_segment chunks
          (strip (take (fst (ordered_cut (window t s max_len))) (window t s max_len)))
          (base @ snd (ordered_cut (window t s max_len))))"
proof -
  from skip_spaces_nonneg[OF s0, of t] sk s0 have s_nn: "0 \<le> s" by auto
  let ?e = "s + max_len"
  let ?w = "window t s max_len"
  have lt: "s < ?e" and le: "?e \<le> int (length t)" using m big by auto
  have w: "drop (nat s) (take (nat ?e) t) = ?w"
    using s_nn m by (simp add: window_def drop_take nat_add_distrib)
  have cc: "choose_cut t base s ?e = (s + int (fst (ordered_cut ?w)), base @ snd (ordered_cut ?w))"
    using choose_cut_ordered[OF s_nn lt le, of base] by (simp add: w)
  from choose_cut_bounds[OF s_nn lt le, of base] cc
  have k: "int (fst (ordered_cut ?w)) \<le> max_len" by simp
  have "py_slice t s (s + int (fst (ordered_cut ?w))) = drop (nat s) (take (nat s + fst (ordered_cut ?w)) t)"
    using s_nn by (simp add: py_slice_nonneg nat_add_distrib)
  also have "\<dots> = take (fst (ordered_cut ?w)) (drop (nat s) t)" by (simp add: drop_take)
  also have "\<dots> = take (fst (ordered_cut ?w)) ?w"
  proof -
    from k have "fst (ordered_cut ?w) \<le> nat max_len" by linarith
    then have "min (fst (ordered_cut ?w)) (nat max_len) = fst (ordered_cut ?w)" by simp
    then have "take (fst (ordered_cut ?w)) (take (nat max_len) (drop (nat s) t))
        = take (fst (ordered_cut ?w)) (drop (nat s) t)" by (simp only: take_take)
    then show ?thesis by (simp only: window_def)
  qed
  finally have sl: "py_slice t s (s + int (fst (ordered_cut ?w))) = take (fst (ordered_cut ?w)) ?w" .
  have we: "min (s + max_len) (int (length t)) = s + max_len" using le by simp
  show ?thesis using big m
    by (simp add: fallback_body_def sk Let_def we cc sl)
qed

theorem window_cut_priority_witness:
  "(1::int) \<le> 20 \<and> (0::int) \<le> 0 \<and> skip_spaces (lit ''aaaaaaa and bb or cc dddd'') 0 = Inr 0
   \<and> 20 < int (length (lit ''aaaaaaa and bb or cc dddd'')) - 0
   \<and> fallback_body (lit ''aaaaaaa and bb or cc dddd'') 20 ''length_fallback'' 0 [] =
      Continue 7 [\<lparr>chunk = lit ''aaaaaaa'', rule = ''length_fallback+conj_split''\<rparr>]"
  using window_cut_priority[of 20 0 "lit ''aaaaaaa and bb or cc dddd''" 0 "''length_fallback''" "[]"]
  by (simp add: fallback_eval char_defs cut_eval)

section \<open>Loops that collect pieces\<close>

lemma extend_with_Nil: "extend_with [] r = r"
  by (auto simp: extend_with_def split: option.splits sum.splits)

lemma extend_with_assoc: "extend_with a (extend_with b r) = extend_with (a @ b) r"
  by (auto simp: extend_with_def split: option.splits sum.splits)

lemma extend_with_Some: "extend_with a (Some (Inr cs)) = Some (Inr (a @ cs))"
  by (simp add: extend_with_def)

lemma for_each_collect:
  assumes "\<And>x acc. x \<in> set xs \<Longrightarrow> body x acc = extend_with acc (f x)"
  shows "for_each xs body acc = extend_with acc (collect f xs)"
  using assms
proof (induction xs arbitrary: acc)
  case Nil
  show ?case by (simp add: extend_with_def)
next
  case (Cons x xs)
  have b: "body x acc = extend_with acc (f x)" using Cons.prems by simp
  show ?case
  proof (cases "f x")
    case None
    then show ?thesis using b by (simp add: extend_with_def)
  next
    case (Some r)
    show ?thesis
    proof (cases r)
      case (Inl e)
      then show ?thesis using b Some by (simp add: extend_with_def)
    next
      case (Inr cs)
      have "for_each xs body (acc @ cs) = extend_with (acc @ cs) (collect f xs)"
        using Cons.IH[of "acc @ cs"] Cons.prems by simp
      then show ?thesis using b Some Inr by (simp add: extend_with_Some extend_with_assoc)
    qed
  qed
qed

lemma collect_ok:
  assumes "\<And>x. x \<in> set xs \<Longrightarrow> \<exists>cs. f x = Some (Inr cs) \<and> emitted_ok m R cs \<and> ws_concat cs = ignore_ws (g x)"
  shows "\<exists>cs. collect f xs = Some (Inr cs) \<and> emitted_ok m R cs
           \<and> ws_concat cs = concat (map (\<lambda>x. ignore_ws (g x)) xs)"
  using assms
proof (induction xs)
  case Nil
  show ?case by (simp add: emitted_ok_Nil ws_concat_Nil)
next
  case (Cons x xs)
  from Cons.prems[of x] obtain cs where cs: "f x = Some (Inr cs)" "emitted_ok m R cs"
    "ws_concat cs = ignore_ws (g x)" by auto
  from Cons.IH Cons.prems obtain ds where ds: "collect f xs = Some (Inr ds)" "emitted_ok m R ds"
    "ws_concat ds = concat (map (\<lambda>x. ignore_ws (g x)) xs)" by auto
  have "collect f (x # xs) = Some (Inr (cs @ ds))" using cs ds by (simp add: extend_with_Some)
  moreover have "emitted_ok m R (cs @ ds)" using cs ds by (simp add: emitted_ok_append)
  moreover have "ws_concat (cs @ ds) = concat (map (\<lambda>x. ignore_ws (g x)) (x # xs))"
    using cs ds by (simp add: ws_concat_append)
  ultimately show ?case by blast
qed

lemma for_each_ok:
  assumes "\<And>x acc. x \<in> set xs \<Longrightarrow> body x acc = extend_with acc (f x)"
    and "\<And>x. x \<in> set xs \<Longrightarrow> \<exists>cs. f x = Some (Inr cs) \<and> emitted_ok m R cs \<and> ws_concat cs = ignore_ws (g x)"
  shows "\<exists>cs. for_each xs body [] = Some (Inr cs) \<and> emitted_ok m R cs
           \<and> ws_concat cs = concat (map (\<lambda>x. ignore_ws (g x)) xs)"
proof -
  from collect_ok[of xs f m R g] assms(2) obtain cs where
    "collect f xs = Some (Inr cs)" "emitted_ok m R cs"
    "ws_concat cs = concat (map (\<lambda>x. ignore_ws (g x)) xs)" by blast
  moreover have "for_each xs body [] = extend_with [] (collect f xs)"
    using assms(1) by (rule for_each_collect)
  ultimately show ?thesis by (simp add: extend_with_Nil)
qed

lemma slice_join: "a \<le> b \<Longrightarrow> drop a (take b t) @ drop b t = drop a t"
proof -
  assume ab: "a \<le> b"
  have "drop a (take b t @ drop b t) = drop a (take b t) @ drop (a - length (take b t)) (drop b t)"
    by (rule drop_append)
  moreover have "drop (a - length (take b t)) (drop b t) = drop b t"
  proof (cases "b \<le> length t")
    case True
    with ab have "a - length (take b t) = 0" by simp
    then show ?thesis by simp
  next
    case False
    then show ?thesis by simp
  qed
  ultimately show ?thesis by simp
qed

lemma single_piece_ok:
  assumes "s \<noteq> []" "strip s = s" "int (length s) \<le> m" "r \<in> R"
  shows "emitted_ok m R [\<lparr>chunk = s, rule = r\<rparr>]" "ws_concat [\<lparr>chunk = s, rule = r\<rparr>] = ignore_ws s"
  using assms by (simp_all add: emitted_ok_def ws_concat_def)

lemma fallback_split_ok:
  assumes "1 \<le> m"
  shows "\<exists>cs. fallback_split_by_commas_and_conjs t m base = Some (Inr cs)
           \<and> emitted_ok m (fallback_rules base) cs \<and> ws_concat cs = ignore_ws t"
  using fallback_loop_total[OF assms, of 0 t base "[]"]
  by (simp add: fallback_split_by_commas_and_conjs_def)

lemma all_rules_mem:
  "''sentence'' \<in> all_rules" "''comma_first'' \<in> all_rules" "''clause_subordinator'' \<in> all_rules"
  "fallback_rules ''clause_subordinator'' \<subseteq> all_rules" "fallback_rules ''length_fallback'' \<subseteq> all_rules"
  by (auto simp: all_rules_def)

lemma clause_output_ok:
  assumes m: "1 \<le> m" and c: "clause \<noteq> []" "strip clause = clause"
  shows "\<exists>cs. clause_output m clause = Some (Inr cs) \<and> emitted_ok m all_rules cs
           \<and> ws_concat cs = ignore_ws clause"
proof (cases "int (length clause) \<le> m")
  case True
  with single_piece_ok[OF c True all_rules_mem(3)] show ?thesis by (simp add: clause_output_def)
next
  case False
  from fallback_split_ok[OF m, of clause "''clause_subordinator''"] obtain cs where
    "fallback_split_by_commas_and_conjs clause m ''clause_subordinator'' = Some (Inr cs)"
    "emitted_ok m (fallback_rules ''clause_subordinator'') cs" "ws_concat cs = ignore_ws clause" by blast
  with False emitted_ok_mono[OF _ all_rules_mem(4)] show ?thesis by (auto simp: clause_output_def)
qed

section \<open>Tier 2 on clause spans\<close>

lemma finditer_word_sound: "p \<in> set (finditer_word w t i) \<Longrightarrow> word_at w t p"
proof (induction w t i rule: finditer_word.induct)
  case (1 word t i)
  from "1.prems" have "i + length word \<le> length t"
    by (subst (asm) finditer_word.simps) (auto split: if_splits)
  with "1.prems" "1.IH" show ?case
    by (subst (asm) finditer_word.simps) (auto split: if_splits)
qed

lemma SUBORDINATORS_lower: "w \<in> set SUBORDINATORS \<Longrightarrow> w \<noteq> [] \<and> 97 \<le> hd w \<and> hd w \<le> 122"
  by (auto simp: SUBORDINATORS_def lit_def)

lemma ci_match_not_space: "ci_match p c \<Longrightarrow> 97 \<le> p \<Longrightarrow> p \<le> 122 \<Longrightarrow> \<not> isspace c"
  by (auto simp: ci_match_def isspace_def)

lemma word_at_start:
  assumes "word_at w t p" "w \<in> set SUBORDINATORS"
  shows "p < length t \<and> \<not> isspace (t ! p)"
proof -
  from SUBORDINATORS_lower[OF assms(2)] obtain x xs where w: "w = x # xs" "97 \<le> x" "x \<le> 122"
    by (cases w) auto
  from assms(1) w have le: "p + Suc (length xs) \<le> length t"
    and la: "list_all2 ci_match (x # xs) (take (Suc (length xs)) (drop p t))"
    by (auto simp: word_at_def)
  from le have p: "p < length t" by simp
  then have "drop p t = t ! p # drop (Suc p) t" by (simp add: Cons_nth_drop_Suc)
  with la have "ci_match x (t ! p)" by simp
  with w p show ?thesis by (auto dest: ci_match_not_space)
qed

lemma subordinator_positions_props:
  "sorted (find_subordinator_positions t)" "distinct (find_subordinator_positions t)"
  "p \<in> set (find_subordinator_positions t) \<Longrightarrow> p < length t \<and> \<not> isspace (t ! p)"
proof -
  show "sorted (find_subordinator_positions t)" by (simp add: find_subordinator_positions_def)
  show "distinct (find_subordinator_positions t)" by (simp add: find_subordinator_positions_def)
  assume "p \<in> set (find_subordinator_positions t)"
  then obtain w where "w \<in> set SUBORDINATORS" "p \<in> set (finditer_word w t 0)"
    by (auto simp: find_subordinator_positions_def)
  then show "p < length t \<and> \<not> isspace (t ! p)"
    using finditer_word_sound word_at_start by blast
qed


lemma clause_step_eq:
  "clause_step t m bs i acc =
     extend_with acc (if strip (span_at t bs i) = [] then Some (Inr []) else clause_output m (strip (span_at t bs i)))"
  by (simp add: clause_step_def Let_def span_at_def clause_output_def extend_with_def)

lemma spans_join:
  assumes "sorted bs" "i < length bs"
  shows "concat (map (\<lambda>i. ignore_ws (span_at t bs i)) [i ..< length bs]) = ignore_ws (drop (bs ! i) t)"
  using assms(2)
proof (induction "length bs - i" arbitrary: i)
  case 0
  then show ?case by simp
next
  case (Suc n)
  have u: "[i ..< length bs] = i # [Suc i ..< length bs]" using Suc.prems by (simp add: upt_conv_Cons)
  show ?case
  proof (cases "Suc i < length bs")
    case False
    with Suc.prems have "Suc i = length bs" by simp
    then show ?thesis unfolding u by (simp add: span_at_def)
  next
    case True
    from Suc.hyps(2) have "n = length bs - Suc i" by simp
    from Suc.hyps(1)[OF this True]
    have r: "concat (map (\<lambda>i. ignore_ws (span_at t bs i)) [Suc i ..< length bs]) = ignore_ws (drop (bs ! Suc i) t)" .
    have "bs ! i \<le> bs ! Suc i" using assms(1) True by (simp add: sorted_iff_nth_mono)
    from slice_join[OF this, of t]
    have "ignore_ws (drop (bs ! i) (take (bs ! Suc i) t)) @ ignore_ws (drop (bs ! Suc i) t) = ignore_ws (drop (bs ! i) t)"
      by (simp add: ignore_ws_append[symmetric])
    then show ?thesis unfolding u using r True by (simp add: span_at_def)
  qed
qed


lemma split_by_subordinators_spans:
  "split_by_subordinators t m =
     (if find_subordinator_positions t = [] then fallback_split_by_commas_and_conjs t m ''length_fallback''
      else collect (span_output t m (clause_boundaries (find_subordinator_positions t)))
             [0 ..< length (clause_boundaries (find_subordinator_positions t))])"
proof (cases "find_subordinator_positions t = []")
  case True
  then show ?thesis by (simp add: split_by_subordinators_def)
next
  case False
  let ?bs = "clause_boundaries (find_subordinator_positions t)"
  have bs: "(if find_subordinator_positions t ! 0 \<noteq> 0 then 0 # find_subordinator_positions t
             else find_subordinator_positions t) = ?bs"
    using False by (simp add: clause_boundaries_def hd_conv_nth)
  have "for_each [0 ..< length ?bs] (clause_step t m ?bs) [] =
      extend_with [] (collect (span_output t m ?bs) [0 ..< length ?bs])"
    by (rule for_each_collect) (simp add: clause_step_eq span_output_def)
  moreover have "split_by_subordinators t m = for_each [0 ..< length ?bs] (clause_step t m ?bs) []"
    using False unfolding split_by_subordinators_def Let_def bs by simp
  ultimately show ?thesis using False by (simp add: extend_with_Nil)
qed

lemma clause_boundaries_props:
  assumes ne: "find_subordinator_positions t \<noteq> []"
  defines "bs \<equiv> clause_boundaries (find_subordinator_positions t)"
  shows "sorted bs" "distinct bs" "bs \<noteq> []" "bs ! 0 = 0"
    "strip t = t \<Longrightarrow> p \<in> set bs \<Longrightarrow> p < length t \<and> \<not> isspace (t ! p)"
proof -
  let ?st = "find_subordinator_positions t"
  note pr = subordinator_positions_props[where t = t]
  obtain x xs where st: "?st = x # xs" using ne by (cases ?st) auto
  have ge: "\<forall>y\<in>set ?st. x \<le> y" using pr(1) st by auto
  show "sorted bs" using pr(1) by (auto simp: bs_def clause_boundaries_def)
  show "distinct bs" using pr(2) ge st by (auto simp: bs_def clause_boundaries_def)
  show "bs \<noteq> []" using ne by (simp add: bs_def clause_boundaries_def)
  show "bs ! 0 = 0" using st by (simp add: bs_def clause_boundaries_def)
  assume tr: "strip t = t" and p: "p \<in> set bs"
  have "x \<in> set ?st" using st by simp
  with pr(3) have "x < length t" by blast
  then have tne: "t \<noteq> []" by auto
  with tr strip_hd[of t] have "\<not> isspace (t ! 0)" by (simp add: hd_conv_nth)
  with tne pr(3) p show "p < length t \<and> \<not> isspace (t ! p)"
    by (auto simp: bs_def clause_boundaries_def split: if_splits)
qed



lemma split_by_subordinators_ok:
  assumes m: "1 \<le> m"
  shows "\<exists>cs. split_by_subordinators t m = Some (Inr cs) \<and> emitted_ok m all_rules cs
           \<and> ws_concat cs = ignore_ws t"
proof (cases "find_subordinator_positions t = []")
  case True
  from fallback_split_ok[OF m, of t "''length_fallback''"] obtain cs where
    "fallback_split_by_commas_and_conjs t m ''length_fallback'' = Some (Inr cs)"
    "emitted_ok m (fallback_rules ''length_fallback'') cs" "ws_concat cs = ignore_ws t" by blast
  with True emitted_ok_mono[OF _ all_rules_mem(5)] show ?thesis
    by (auto simp: split_by_subordinators_spans)
next
  case False
  let ?bs = "clause_boundaries (find_subordinator_positions t)"
  note bp = clause_boundaries_props[OF False]
  have each: "\<exists>cs. span_output t m ?bs i = Some (Inr cs) \<and> emitted_ok m all_rules cs
      \<and> ws_concat cs = ignore_ws (span_at t ?bs i)" for i
  proof (cases "strip (span_at t ?bs i) = []")
    case True
    then have "ignore_ws (span_at t ?bs i) = []" by (simp add: ignore_ws_Nil_iff strip_Nil_iff)
    with True show ?thesis by (simp add: span_output_def emitted_ok_Nil ws_concat_Nil)
  next
    case ne: False
    from clause_output_ok[OF m ne strip_strip] ne show ?thesis
      by (simp add: span_output_def ignore_ws_strip)
  qed
  from collect_ok[of "[0 ..< length ?bs]" "span_output t m ?bs" m all_rules "span_at t ?bs"] each
  obtain cs where cs: "collect (span_output t m ?bs) [0 ..< length ?bs] = Some (Inr cs)"
    "emitted_ok m all_rules cs"
    "ws_concat cs = concat (map (\<lambda>i. ignore_ws (span_at t ?bs i)) [0 ..< length ?bs])" by blast
  have "0 < length ?bs" using bp(3) by simp
  from spans_join[OF bp(1) this, of t] bp(4) cs(3) have "ws_concat cs = ignore_ws t" by simp
  with cs False show ?thesis by (simp add: split_by_subordinators_spans)
qed

subsection \<open>Claim C4\<close>

lemma split_by_subordinators_example:
  "split_by_subordinators (lit ''go when it is if ok'') 10 =
     Some (Inr [\<lparr>chunk = lit ''go'', rule = ''clause_subordinator''\<rparr>,
                \<lparr>chunk = lit ''when it is'', rule = ''clause_subordinator''\<rparr>,
                \<lparr>chunk = lit ''if ok'', rule = ''clause_subordinator''\<rparr>])"
  by (simp add: sub_eval char_defs strip_def upt_rec)



section \<open>Tier 1 on comma segments\<close>

lemma take_slice_join: "a \<le> b \<Longrightarrow> take a t @ drop a (take b t) = take b t"
proof -
  assume "a \<le> b"
  then have "take a (take b t) = take a t" by (simp add: min_def)
  moreover have "take a (take b t) @ drop a (take b t) = take b t" by (rule append_take_drop_id)
  ultimately show ?thesis by simp
qed

lemma segment_step_inv:
  assumes "prev \<le> pos + 1" "concat (map ignore_ws segs) = ignore_ws (take prev t)" "good_texts segs"
  shows "\<exists>segs'. segment_step t pos (prev, segs) = (pos + 1, segs')
           \<and> concat (map ignore_ws segs') = ignore_ws (take (pos + 1) t) \<and> good_texts segs'"
proof -
  let ?seg = "strip (drop prev (take (pos + 1) t))"
  let ?segs' = "if ?seg \<noteq> [] then segs @ [?seg] else segs"
  have st: "segment_step t pos (prev, segs) = (pos + 1, ?segs')"
    by (simp add: segment_step_def Let_def)
  have "ignore_ws (take prev t) @ ignore_ws (drop prev (take (pos + 1) t)) = ignore_ws (take (pos + 1) t)"
    using take_slice_join[OF assms(1), of t] by (simp add: ignore_ws_append[symmetric])
  moreover have "ignore_ws ?seg = ignore_ws (drop prev (take (pos + 1) t))" by (rule ignore_ws_strip)
  moreover have "?seg = [] \<Longrightarrow> ignore_ws ?seg = []" by (simp add: ignore_ws_def)
  ultimately have "concat (map ignore_ws ?segs') = ignore_ws (take (pos + 1) t)"
    using assms(2) by auto
  moreover have "good_texts ?segs'" using assms(3) by (simp add: good_texts_def strip_strip)
  ultimately show ?thesis using st by blast
qed

lemma fold_segment_step_inv:
  assumes "sorted ps" "\<forall>p\<in>set ps. prev \<le> p + 1"
    "concat (map ignore_ws segs) = ignore_ws (take prev t)" "good_texts segs"
  shows "\<exists>prev' segs'. fold (segment_step t) ps (prev, segs) = (prev', segs')
           \<and> concat (map ignore_ws segs') = ignore_ws (take prev' t) \<and> good_texts segs'"
  using assms
proof (induction ps arbitrary: prev segs)
  case Nil
  then show ?case by simp
next
  case (Cons p ps)
  from Cons.prems have "prev \<le> p + 1" by simp
  from segment_step_inv[OF this Cons.prems(3,4)] obtain segs' where
    s: "segment_step t p (prev, segs) = (p + 1, segs')"
    "concat (map ignore_ws segs') = ignore_ws (take (p + 1) t)" "good_texts segs'" by blast
  have "sorted ps" "\<forall>q\<in>set ps. p + 1 \<le> q + 1" using Cons.prems(1) by auto
  from Cons.IH[OF this s(2,3)] show ?case by (simp add: s(1))
qed

lemma comma_segments_props:
  assumes "sorted ps"
  shows "concat (map ignore_ws (comma_segments t ps)) = ignore_ws t" "good_texts (comma_segments t ps)"
proof -
  have "\<exists>prev' segs'. fold (segment_step t) ps (0, []) = (prev', segs')
           \<and> concat (map ignore_ws segs') = ignore_ws (take prev' t) \<and> good_texts segs'"
    by (rule fold_segment_step_inv[OF assms]) (simp_all add: good_texts_def ignore_ws_def)
  then obtain prev' segs' where f: "fold (segment_step t) ps (0, []) = (prev', segs')"
    and c: "concat (map ignore_ws segs') = ignore_ws (take prev' t)" and g: "good_texts segs'" by blast
  let ?tail = "strip (drop prev' t)"
  have cs: "comma_segments t ps = (if ?tail \<noteq> [] then segs' @ [?tail] else segs')"
    by (simp add: comma_segments_def f)
  have "ignore_ws (take prev' t) @ ignore_ws (drop prev' t) = ignore_ws t"
    by (simp add: ignore_ws_append[symmetric])
  moreover have "ignore_ws ?tail = ignore_ws (drop prev' t)" by (rule ignore_ws_strip)
  moreover have "?tail = [] \<Longrightarrow> ignore_ws ?tail = []" by (simp add: ignore_ws_def)
  ultimately show "concat (map ignore_ws (comma_segments t ps)) = ignore_ws t"
    unfolding cs using c by auto
  show "good_texts (comma_segments t ps)" unfolding cs using g by (simp add: good_texts_def strip_strip)
qed

lemma segment_chunks_eq: "segment_chunks m seg chunks = extend_with chunks (segment_output m seg)"
  by (simp add: segment_chunks_def segment_output_def extend_with_def)

lemma segment_output_ok:
  assumes m: "1 \<le> m" and g: "seg \<noteq> []" "strip seg = seg"
  shows "\<exists>cs. segment_output m seg = Some (Inr cs) \<and> emitted_ok m all_rules cs
      \<and> ws_concat cs = ignore_ws seg"
proof (cases "int (length seg) \<le> m")
  case True
  with single_piece_ok[OF g True all_rules_mem(2)] show ?thesis by (simp add: segment_output_def)
next
  case False
  with split_by_subordinators_ok[OF m, of seg] show ?thesis by (simp add: segment_output_def)
qed

lemma split_long_sentence_no_comma:
  "filter (\<lambda>i. t ! i = comma) [0 ..< length t] = [] \<Longrightarrow> split_long_sentence t m = split_by_subordinators t m"
  unfolding split_long_sentence_def Let_def
  by (simp only: list.simps if_True if_False not_False_eq_True not_True_eq_False refl)

lemma split_long_sentence_comma:
  "filter (\<lambda>i. t ! i = comma) [0 ..< length t] \<noteq> [] \<Longrightarrow>
   split_long_sentence t m = for_each (comma_segments t (filter (\<lambda>i. t ! i = comma) [0 ..< length t])) (segment_chunks m) []"
  unfolding split_long_sentence_def Let_def
  by (simp only: if_True if_False not_False_eq_True not_True_eq_False refl)

lemma sorted_comma_positions: "sorted (filter P [0 ..< n])"
  by (rule sorted_wrt_filter) simp

lemma segments_loop_ok:
  assumes m: "1 \<le> m" and g: "good_texts segs"
  shows "\<exists>cs. for_each segs (segment_chunks m) [] = Some (Inr cs)
      \<and> emitted_ok m all_rules cs \<and> ws_concat cs = concat (map (\<lambda>x. ignore_ws x) segs)"
proof (rule for_each_ok[where f = "segment_output m"])
  fix x acc
  show "segment_chunks m x acc = extend_with acc (segment_output m x)" by (rule segment_chunks_eq)
next
  fix x assume "x \<in> set segs"
  with g have "x \<noteq> []" "strip x = x" unfolding good_texts_def list_all_iff by blast+
  from segment_output_ok[OF m this]
  show "\<exists>cs. segment_output m x = Some (Inr cs) \<and> emitted_ok m all_rules cs \<and> ws_concat cs = ignore_ws x" .
qed

lemma split_long_sentence_ok:
  assumes m: "1 \<le> m"
  shows "\<exists>cs. split_long_sentence t m = Some (Inr cs) \<and> emitted_ok m all_rules cs
           \<and> ws_concat cs = ignore_ws t"
proof (cases "filter (\<lambda>i. t ! i = comma) [0 ..< length t] = []")
  case True
  from split_by_subordinators_ok[OF m, of t] show ?thesis
    by (simp only: split_long_sentence_no_comma[OF True])
next
  case False
  define segs where "segs = comma_segments t (filter (\<lambda>i. t ! i = comma) [0 ..< length t])"
  have c: "concat (map ignore_ws segs) = ignore_ws t" and g: "good_texts segs"
    unfolding segs_def by (rule comma_segments_props[OF sorted_comma_positions])+
  have eq: "split_long_sentence t m = for_each segs (segment_chunks m) []"
    unfolding segs_def using False by (rule split_long_sentence_comma)
  from segments_loop_ok[OF m g] show ?thesis by (simp only: eq c)
qed

section \<open>Splitting into paragraphs and sentences loses only whitespace\<close>

lemma isspace_space: "isspace space" and isspace_newline: "isspace newline"
  by (simp_all add: isspace_def space_def newline_def)

lemma ignore_ws_collapse: "ignore_ws (collapse_ws s) = ignore_ws s"
proof (induction s rule: collapse_ws.induct)
  case 1
  show ?case by simp
next
  case (2 c cs)
  show ?case
  proof (cases "isspace c")
    case True
    with 2 have "ignore_ws (collapse_ws (dropWhile isspace cs)) = ignore_ws (dropWhile isspace cs)" by simp
    then have "ignore_ws (collapse_ws (c # cs)) = ignore_ws cs"
      using True isspace_space by (simp add: ignore_ws_dropWhile) (simp add: ignore_ws_def)
    then show ?thesis using True by (simp add: ignore_ws_def)
  next
    case False
    with 2 show ?thesis by (simp add: ignore_ws_def)
  qed
qed

lemma drop_skip_ws:
  assumes "\<forall>c\<in>set (take k (drop i t)). isspace c"
  shows "ignore_ws (drop (i + k) t) = ignore_ws (drop i t)"
proof -
  have "drop i t = take k (drop i t) @ drop k (drop i t)" by (rule append_take_drop_id[symmetric])
  then have "ignore_ws (drop i t) = ignore_ws (take k (drop i t)) @ ignore_ws (drop k (drop i t))"
    by (metis ignore_ws_append)
  moreover have "ignore_ws (take k (drop i t)) = []" using assms by (simp add: ignore_ws_Nil_iff)
  moreover have "drop k (drop i t) = drop (i + k) t" by (simp add: add.commute)
  ultimately show ?thesis by simp
qed

lemma take_takeWhile_space: "k \<le> length (takeWhile isspace cs) \<Longrightarrow> \<forall>c\<in>set (take k cs). isspace c"
proof -
  assume k: "k \<le> length (takeWhile isspace cs)"
  have e: "take k (takeWhile isspace cs @ dropWhile isspace cs)
      = take k (takeWhile isspace cs) @ take (k - length (takeWhile isspace cs)) (dropWhile isspace cs)"
    by (rule take_append)
  have "take k cs = take k (takeWhile isspace cs)" using e k by simp
  then have "set (take k cs) \<subseteq> set (takeWhile isspace cs)" by (simp add: set_take_subset)
  then show ?thesis by (auto dest: set_takeWhileD)
qed

lemma sentence_split_ws:
  "b \<le> i \<Longrightarrow> concat (map ignore_ws (sentence_split t b i)) = ignore_ws (drop b t)"
proof (induction t b i rule: sentence_split.induct)
  case (1 t b i)
  show ?case
  proof (cases "i < length t")
    case False
    then show ?thesis by (subst sentence_split.simps) simp
  next
    case lt: True
    show ?thesis
    proof (cases "0 < i \<and> terminal_mark (t ! (i - 1)) \<and> isspace (t ! i)")
      case True
      define k where "k = length (takeWhile isspace (drop i t))"
      have ih: "concat (map ignore_ws (sentence_split t (i + k) (i + k))) = ignore_ws (drop (i + k) t)"
        using "1.IH"(1)[OF lt True, of "i + k"] by (simp add: k_def)
      have "ignore_ws (drop (i + k) t) = ignore_ws (drop i t)"
        by (rule drop_skip_ws, rule take_takeWhile_space) (simp add: k_def)
      moreover have "ignore_ws (drop b (take i t)) @ ignore_ws (drop i t) = ignore_ws (drop b t)"
        using slice_join[OF "1.prems", of t] by (simp add: ignore_ws_append[symmetric])
      moreover have "sentence_split t b i = drop b (take i t) # sentence_split t (i + k) (i + k)"
        using lt True by (subst sentence_split.simps) (simp add: k_def Let_def)
      ultimately show ?thesis using ih by simp
    next
      case False
      have "sentence_split t b i = sentence_split t b (i + 1)"
        by (subst sentence_split.simps) (simp only: lt False if_True if_False)
      moreover have "concat (map ignore_ws (sentence_split t b (i + 1))) = ignore_ws (drop b t)"
        using "1.IH"(2)[OF lt False] "1.prems" by simp
      ultimately show ?thesis by simp
    qed
  qed
qed

lemma blank_line_len_le: "blank_line_len cs = Some k \<Longrightarrow> k \<le> length (takeWhile isspace cs)"
  by (auto simp: blank_line_len_def Let_def split: if_splits)

lemma para_split_ws:
  "b \<le> i \<Longrightarrow> concat (map ignore_ws (para_split t b i)) = ignore_ws (drop b t)"
proof (induction t b i rule: para_split.induct)
  case (1 t b i)
  show ?case
  proof (cases "i < length t")
    case False
    then show ?thesis by (subst para_split.simps) simp
  next
    case lt: True
    show ?thesis
    proof (cases "t ! i = newline")
      case nl: True
      show ?thesis
      proof (cases "blank_line_len (drop (i + 1) t)")
        case None
        have "para_split t b i = para_split t b (i + 1)"
          using lt nl None by (subst para_split.simps) simp
        moreover have "concat (map ignore_ws (para_split t b (i + 1))) = ignore_ws (drop b t)"
          using "1.IH"(1)[OF lt nl None] "1.prems" by simp
        ultimately show ?thesis by simp
      next
        case (Some k)
        have ih: "concat (map ignore_ws (para_split t (i + 1 + k) (i + 1 + k))) = ignore_ws (drop (i + 1 + k) t)"
          using "1.IH"(2)[OF lt nl Some] by simp
        have "ignore_ws (drop (i + 1 + k) t) = ignore_ws (drop (i + 1) t)"
          by (rule drop_skip_ws, rule take_takeWhile_space, rule blank_line_len_le[OF Some])
        moreover have "drop i t = t ! i # drop (i + 1) t" using lt by (simp add: Cons_nth_drop_Suc)
        then have "ignore_ws (drop (i + 1) t) = ignore_ws (drop i t)"
          using nl isspace_newline by (simp add: ignore_ws_def)
        moreover have "ignore_ws (drop b (take i t)) @ ignore_ws (drop i t) = ignore_ws (drop b t)"
          using slice_join[OF "1.prems", of t] by (simp add: ignore_ws_append[symmetric])
        moreover have "para_split t b i = drop b (take i t) # para_split t (i + 1 + k) (i + 1 + k)"
          using lt nl Some by (subst para_split.simps) simp
        ultimately show ?thesis using ih by simp
      qed
    next
      case False
      have "para_split t b i = para_split t b (i + 1)"
        using lt False by (subst para_split.simps) simp
      moreover have "concat (map ignore_ws (para_split t b (i + 1))) = ignore_ws (drop b t)"
        using "1.IH"(3)[OF lt False] "1.prems" by simp
      ultimately show ?thesis by simp
    qed
  qed
qed

lemma ignore_ws_strip_Nil: "strip p = [] \<Longrightarrow> ignore_ws p = []"
  by (simp add: ignore_ws_Nil_iff strip_Nil_iff)

lemma filtered_strip_ws:
  "concat (map ignore_ws (map strip (filter (\<lambda>p. strip p \<noteq> []) ps))) = concat (map ignore_ws ps)"
  by (induction ps) (simp_all add: ignore_ws_strip ignore_ws_strip_Nil)

lemma split_into_sentences_ws: "concat (map ignore_ws (split_into_sentences p)) = ignore_ws p"
proof -
  let ?q = "collapse_ws (strip p)"
  have q: "ignore_ws ?q = ignore_ws p" by (simp add: ignore_ws_collapse ignore_ws_strip)
  have s: "concat (map ignore_ws (sentence_split ?q 0 0)) = ignore_ws ?q"
    using sentence_split_ws[of 0 0 ?q] by simp
  show ?thesis
  proof (cases "?q = []")
    case True
    with q have "ignore_ws p = []" by (simp add: ignore_ws_def)
    with True show ?thesis by (simp add: split_into_sentences_def)
  next
    case False
    then show ?thesis using q s
      by (simp add: split_into_sentences_def Let_def filtered_strip_ws del: map_map)
  qed
qed

lemma split_into_paragraphs_ws: "concat (map ignore_ws (split_into_paragraphs t)) = ignore_ws t"
proof -
  let ?q = "strip t"
  have s: "concat (map ignore_ws (para_split ?q 0 0)) = ignore_ws t"
    using para_split_ws[of 0 0 ?q] by (simp add: ignore_ws_strip)
  show ?thesis
  proof (cases "?q = []")
    case True
    then have "ignore_ws t = []" by (rule ignore_ws_strip_Nil)
    with True show ?thesis by (simp add: split_into_paragraphs_def)
  next
    case False
    then show ?thesis using s
      by (simp add: split_into_paragraphs_def Let_def filtered_strip_ws del: map_map)
  qed
qed

section \<open>The whole pipeline for a positive budget\<close>

lemma sentence_chunks_eq: "sentence_chunks m x chunks = extend_with chunks (sentence_output m x)"
  by (simp add: sentence_chunks_def sentence_output_def extend_with_def Let_def)

lemma sentence_output_ok:
  assumes m: "1 \<le> m"
  shows "\<exists>cs. sentence_output m x = Some (Inr cs) \<and> emitted_ok m all_rules cs
      \<and> ws_concat cs = ignore_ws x"
proof (cases "strip x = []")
  case True
  then have "ignore_ws x = []" by (rule ignore_ws_strip_Nil)
  with True show ?thesis by (simp add: sentence_output_def emitted_ok_Nil ws_concat_Nil)
next
  case ne: False
  show ?thesis
  proof (cases "int (length (strip x)) \<le> m")
    case True
    with single_piece_ok[OF ne strip_strip True all_rules_mem(1)] ne show ?thesis
      by (simp add: sentence_output_def ignore_ws_strip)
  next
    case False
    with split_long_sentence_ok[OF m, of "strip x"] ne show ?thesis
      by (simp add: sentence_output_def ignore_ws_strip)
  qed
qed

lemma process_paragraph_ok:
  assumes m: "1 \<le> m"
  shows "\<exists>cs. process_paragraph p m = Some (Inr cs) \<and> emitted_ok m all_rules cs
      \<and> ws_concat cs = ignore_ws p"
proof -
  have "\<exists>cs. for_each (split_into_sentences p) (sentence_chunks m) [] = Some (Inr cs)
      \<and> emitted_ok m all_rules cs
      \<and> ws_concat cs = concat (map (\<lambda>x. ignore_ws x) (split_into_sentences p))"
  proof (rule for_each_ok[where f = "sentence_output m"])
    fix x acc
    show "sentence_chunks m x acc = extend_with acc (sentence_output m x)" by (rule sentence_chunks_eq)
  next
    fix x
    show "\<exists>cs. sentence_output m x = Some (Inr cs) \<and> emitted_ok m all_rules cs \<and> ws_concat cs = ignore_ws x"
      by (rule sentence_output_ok[OF m])
  qed
  then show ?thesis by (simp only: process_paragraph_def split_into_sentences_ws)
qed

lemma paragraphs_loop_ok:
  assumes m: "1 \<le> m"
  shows "\<exists>cs. for_each ps (\<lambda>para all_chunks. extend_with all_chunks (process_paragraph para m)) []
        = Some (Inr cs)
      \<and> emitted_ok m all_rules cs \<and> ws_concat cs = concat (map (\<lambda>x. ignore_ws x) ps)"
proof (rule for_each_ok[where f = "\<lambda>para. process_paragraph para m"])
  fix x acc
  show "extend_with acc (process_paragraph x m) = extend_with acc (process_paragraph x m)" ..
next
  fix x
  show "\<exists>cs. process_paragraph x m = Some (Inr cs) \<and> emitted_ok m all_rules cs \<and> ws_concat cs = ignore_ws x"
    by (rule process_paragraph_ok[OF m])
qed

lemma chunk_text_ok:
  assumes m: "1 \<le> m"
  shows "\<exists>cs. chunk_text t m = Some (Inr (final_chunks cs)) \<and> emitted_ok m all_rules cs
      \<and> ws_concat cs = ignore_ws (normalize_for_tts t)"
proof -
  from paragraphs_loop_ok[OF m, of "split_into_paragraphs (normalize_for_tts t)"]
  obtain cs where cs: "for_each (split_into_paragraphs (normalize_for_tts t))
       (\<lambda>para all_chunks. extend_with all_chunks (process_paragraph para m)) [] = Some (Inr cs)"
    "emitted_ok m all_rules cs"
    "ws_concat cs = concat (map (\<lambda>x. ignore_ws x) (split_into_paragraphs (normalize_for_tts t)))"
    by blast
  have "chunk_text t m = Some (Inr (final_chunks cs))"
    unfolding chunk_text_def Let_def cs(1) by simp
  moreover have "ws_concat cs = ignore_ws (normalize_for_tts t)"
    using cs(3) by (simp only: split_into_paragraphs_ws)
  ultimately show ?thesis using cs(2) by blast
qed

lemma final_chunks_emitted:
  assumes "emitted_ok m R cs"
  shows "final_chunks cs = map (\<lambda>ch. \<lparr>chunk = chunk ch, rule = rule ch, length_field = length (chunk ch)\<rparr>) cs"
proof -
  from assms have a: "\<forall>ch\<in>set cs. strip (chunk ch) = chunk ch \<and> chunk ch \<noteq> []"
    by (auto simp: emitted_ok_def list_all_iff)
  then have "filter (\<lambda>ch. strip (chunk ch) \<noteq> []) cs = cs" by (simp add: filter_id_conv)
  then show ?thesis using a by (simp add: final_chunks_def)
qed

lemma final_chunks_shape:
  "list_all (\<lambda>c. chunk c \<noteq> [] \<and> strip (chunk c) = chunk c \<and> length_field c = length (chunk c))
     (final_chunks cs)"
  by (simp add: final_chunks_def list_all_iff strip_strip)

lemma chunk_text_returns_final:
  "chunk_text t m = Some (Inr rs) \<Longrightarrow> \<exists>cs. rs = final_chunks cs"
  by (auto simp: chunk_text_def Let_def split: option.splits sum.splits)

subsection \<open>A run of the whole pipeline\<close>

lemma chunk_text_example:
  "chunk_text (lit ''ab cd. ef'') 3 =
     Some (Inr [\<lparr>chunk = lit ''ab'', rule = ''length_fallback+length_limit'', length_field = 2\<rparr>,
                \<lparr>chunk = lit ''cd.'', rule = ''length_fallback+tail'', length_field = 3\<rparr>,
                \<lparr>chunk = lit ''ef'', rule = ''sentence'', length_field = 2\<rparr>])"
  by (simp add: pipeline_eval normalize_eval sub_eval fallback_eval char_defs)

subsection \<open>Claim C2\<close>

text \<open>With \<open>max_len = 0\<close> the window is empty, the hard cut is at \<open>start\<close> itself and the loop
  makes no progress: on the text \<open>"a"\<close> the body returns to the same state for ever.\<close>

lemma fallback_body_stuck: "fallback_body [97] 0 b 0 c = Continue 0 c"
  by (simp add: fallback_eval char_defs)

lemma fallback_loop_stuck: "fallback_loop [97] 0 b 0 c = None"
proof (cases "fallback_loop [97] 0 b 0 c")
  case None
  then show ?thesis .
next
  case (Some y)
  then have "\<not> ([97] = [97::nat] \<and> (0::int) = 0 \<and> (0::int) = 0)"
  proof (rule fallback_loop.raw_induct[where P = "\<lambda>t m b s c y. \<not> (t = [97] \<and> m = 0 \<and> s = 0)", rotated])
    fix f :: "ustr \<Rightarrow> int \<Rightarrow> string \<Rightarrow> int \<Rightarrow> piece list \<Rightarrow> (py_error + piece list) option"
    fix t m b s c y
    assume ih: "\<And>t m b s c y. f t m b s c = Some y \<Longrightarrow> \<not> (t = [97] \<and> m = 0 \<and> s = 0)"
      and st: "(if s < int (length t)
        then case fallback_body t m b s c of Break cs \<Rightarrow> Some (Inr cs) | Raised e \<Rightarrow> Some (Inl e)
             | Continue cut_at cs \<Rightarrow> f t m b cut_at cs
        else Some (Inr c)) = Some y"
    show "\<not> (t = [97] \<and> m = 0 \<and> s = 0)"
    proof
      assume a: "t = [97] \<and> m = 0 \<and> s = 0"
      with st have "f [97] 0 b 0 c = Some y" by (simp add: fallback_body_stuck)
      from ih[OF this] show False by simp
    qed
  qed
  then show ?thesis by simp
qed

text \<open>
  C2. The claim is that \<^verbatim>\<open>chunk_text\<close> terminates with a list and without an exception for every
  string and every integer \<open>max_len\<close>. On the text \<open>"a"\<close> the code does not return for
  \<open>max_len = 0\<close>, and raises \<^verbatim>\<open>IndexError\<close> for \<open>max_len = -1\<close> (the loop moves \<open>start\<close> below
  \<open>-len(text)\<close> and indexes the text there). For \<open>max_len \<ge> 1\<close> it always returns a list
  (\<open>chunk_text_ok\<close>).
\<close>

theorem chunk_text_nonpositive_max_len:
  "chunk_text (lit ''a'') 0 = None \<and> chunk_text (lit ''a'') (- 1) = Some (Inl IndexError)"
proof
  show "chunk_text (lit ''a'') 0 = None"
    by (simp add: pipeline_eval normalize_eval sub_eval fallback_split_by_commas_and_conjs_def
        fallback_loop_stuck strip_def upt_rec char_defs)
  show "chunk_text (lit ''a'') (- 1) = Some (Inl IndexError)"
    by (simp add: pipeline_eval normalize_eval sub_eval fallback_eval char_defs)
qed

subsection \<open>Claim C5\<close>

lemma ignore_ws_concat: "ignore_ws (concat xs) = concat (map ignore_ws xs)"
  by (induction xs) (simp_all add: ignore_ws_append, simp add: ignore_ws_def)

text \<open>
  C5. For every text and every \<open>max_len \<ge> 1\<close>, \<^verbatim>\<open>chunk_text\<close> returns a list, and the texts of
  its chunks, concatenated in output order with whitespace ignored, are the normalized input
  (\<^verbatim>\<open>normalize_for_tts\<close> of the input) with whitespace ignored: nothing but whitespace is lost,
  nothing is duplicated or reordered.
\<close>

theorem chunk_text_reconstructs_normalized:
  assumes "1 \<le> max_len"
  shows "\<exists>cs. chunk_text t max_len = Some (Inr cs)
           \<and> ignore_ws (concat (map chunk cs)) = ignore_ws (normalize_for_tts t)"
proof -
  from chunk_text_ok[OF assms, of t] obtain ps where
    r: "chunk_text t max_len = Some (Inr (final_chunks ps))" and ok: "emitted_ok max_len all_rules ps"
    and w: "ws_concat ps = ignore_ws (normalize_for_tts t)" by blast
  have "map chunk (final_chunks ps) = map chunk ps"
    by (simp add: final_chunks_emitted[OF ok])
  then have "ignore_ws (concat (map chunk (final_chunks ps))) = ws_concat ps"
    by (simp add: ignore_ws_concat ws_concat_def comp_def)
  with r w show ?thesis by simp
qed

theorem chunk_text_reconstructs_normalized_witness:
  "(1::int) \<le> 3 \<and> (\<exists>cs. chunk_text (lit ''ab cd. ef'') 3 = Some (Inr cs)
           \<and> ignore_ws (concat (map chunk cs)) = ignore_ws (normalize_for_tts (lit ''ab cd. ef'')))"
  using chunk_text_reconstructs_normalized[of 3 "lit ''ab cd. ef''"] by simp

subsection \<open>Claim C8\<close>

text \<open>
  C8. For every text and every \<open>max_len\<close>, every chunk record that \<^verbatim>\<open>chunk_text\<close> returns has a
  text that is not empty and equals its own trim, and its \<open>length\<close> field is the number of
  characters of that text.
\<close>

theorem chunk_records_trimmed_with_length:
  assumes "chunk_text t max_len = Some (Inr cs)"
  shows "list_all (\<lambda>c. chunk c \<noteq> [] \<and> strip (chunk c) = chunk c \<and> length_field c = length (chunk c)) cs"
proof -
  from chunk_text_returns_final[OF assms] obtain ps where "cs = final_chunks ps" by blast
  then show ?thesis by (simp only: final_chunks_shape)
qed

theorem chunk_records_trimmed_with_length_witness:
  "chunk_text (lit ''ab cd. ef'') 3 =
     Some (Inr [\<lparr>chunk = lit ''ab'', rule = ''length_fallback+length_limit'', length_field = 2\<rparr>,
                \<lparr>chunk = lit ''cd.'', rule = ''length_fallback+tail'', length_field = 3\<rparr>,
                \<lparr>chunk = lit ''ef'', rule = ''sentence'', length_field = 2\<rparr>])
   \<and> list_all (\<lambda>c. chunk c \<noteq> [] \<and> strip (chunk c) = chunk c \<and> length_field c = length (chunk c))
       [\<lparr>chunk = lit ''ab'', rule = ''length_fallback+length_limit'', length_field = 2\<rparr>,
        \<lparr>chunk = lit ''cd.'', rule = ''length_fallback+tail'', length_field = 3\<rparr>,
        \<lparr>chunk = lit ''ef'', rule = ''sentence'', length_field = 2\<rparr>]"
  using chunk_records_trimmed_with_length[OF chunk_text_example] chunk_text_example by simp

subsection \<open>Claim C10\<close>

text \<open>
  C10. For every text and every \<open>max_len \<ge> 1\<close>, \<^verbatim>\<open>chunk_text\<close> returns a list in which every
  chunk record, whatever its rule tag (\<open>sentence\<close>, \<open>comma_first\<close>, \<open>clause_subordinator\<close> or a
  fallback tag, \<open>+tail\<close> included), has a text of at most \<open>max_len\<close> characters, and a \<open>length\<close>
  field of at most \<open>max_len\<close>.
\<close>

theorem chunk_text_within_max_len:
  assumes "1 \<le> max_len"
  shows "\<exists>cs. chunk_text t max_len = Some (Inr cs)
           \<and> list_all (\<lambda>c. rule c \<in> all_rules \<and> int (length (chunk c)) \<le> max_len
                              \<and> int (length_field c) \<le> max_len) cs"
proof -
  from chunk_text_ok[OF assms, of t] obtain ps where
    r: "chunk_text t max_len = Some (Inr (final_chunks ps))" and ok: "emitted_ok max_len all_rules ps"
    by blast
  have "list_all (\<lambda>c. rule c \<in> all_rules \<and> int (length (chunk c)) \<le> max_len
      \<and> int (length_field c) \<le> max_len) (final_chunks ps)"
    using ok by (auto simp: final_chunks_emitted[OF ok] emitted_ok_def list_all_iff)
  with r show ?thesis by blast
qed

theorem chunk_text_within_max_len_witness:
  "(1::int) \<le> 3 \<and> (\<exists>cs. chunk_text (lit ''ab cd. ef'') 3 = Some (Inr cs)
           \<and> list_all (\<lambda>c. rule c \<in> all_rules \<and> int (length (chunk c)) \<le> 3
                              \<and> int (length_field c) \<le> 3) cs)"
  using chunk_text_within_max_len[of 3 "lit ''ab cd. ef''"] by simp

subsection \<open>Claim C6\<close>

lemma isalnum_not_dash: "isalnum c \<Longrightarrow> \<not> is_dash c"
  by (auto simp: is_dash_def hyphen_def en_dash_def em_dash_def isalnum_def alnum_ranges_def)

lemma isalnum_not_space: "isalnum c \<Longrightarrow> c \<noteq> space"
  by (auto simp: isalnum_def space_def)

lemma dash_step_keeps_prefix:
  assumes "p \<noteq> []" "last p \<noteq> space"
  shows "\<exists>zs'. dash_step t i (p @ zs) = p @ zs'"
proof (cases "zs = []")
  case True
  with assms show ?thesis by (auto simp: dash_step_def Let_def)
next
  case False
  then have "butlast (p @ zs) = p @ butlast zs" by (simp add: butlast_append)
  then show ?thesis by (auto simp: dash_step_def Let_def)
qed

lemma fold_dash_step_keeps_prefix:
  assumes "p \<noteq> []" "last p \<noteq> space"
  shows "\<exists>zs'. fold (dash_step t) js (p @ zs) = p @ zs'"
proof (induction js arbitrary: zs)
  case Nil
  show ?case by simp
next
  case (Cons j js)
  from dash_step_keeps_prefix[OF assms, of t j zs] obtain zs1 where
    "dash_step t j (p @ zs) = p @ zs1" by blast
  with Cons[of zs1] show ?case by simp
qed

lemma dash_step_prefix_text:
  assumes "i \<le> length pre" "\<not> is_dash a"
  shows "dash_step (pre @ a # rest) i cs = dash_step (pre @ [a]) i cs"
proof (cases "i = length pre")
  case True
  with assms(2) show ?thesis by (simp add: dash_step_def Let_def nth_append)
next
  case False
  with assms(1) have lt: "i < length pre" by simp
  then have "(pre @ a # rest) ! i = (pre @ [a]) ! i" "(pre @ a # rest) ! (i - 1) = (pre @ [a]) ! (i - 1)"
    "(pre @ a # rest) ! (i + 1) = (pre @ [a]) ! (i + 1)"
    by (auto simp: nth_append nth_Cons')
  moreover have "i + 1 < length (pre @ a # rest)" "i + 1 < length (pre @ [a])" using lt by auto
  ultimately show ?thesis unfolding dash_step_def Let_def by (simp only: if_True)
qed

lemma residual_dashes_snoc:
  assumes "\<not> is_dash a"
  shows "residual_dashes (pre @ [a]) = fold (dash_step (pre @ [a])) [0 ..< length pre] [] @ [a]"
  using assms by (simp add: residual_dashes_def dash_step_def Let_def)

lemma upt_split3:
  "[0 ..< Suc k + Suc (Suc n)] = [0 ..< Suc k] @ [Suc k] @ [Suc (Suc k)] @ [Suc (Suc (Suc k)) ..< Suc k + Suc (Suc n)]"
proof -
  have "[0 ..< Suc k + Suc (Suc n)] = [0 ..< Suc k] @ [Suc k ..< Suc k + Suc (Suc n)]"
    by (rule upt_add_eq_append) simp
  moreover have "[Suc k ..< Suc k + Suc (Suc n)] = Suc k # [Suc (Suc k) ..< Suc k + Suc (Suc n)]"
    by (rule upt_conv_Cons) simp
  moreover have "[Suc (Suc k) ..< Suc k + Suc (Suc n)] = Suc (Suc k) # [Suc (Suc (Suc k)) ..< Suc k + Suc (Suc n)]"
    by (rule upt_conv_Cons) simp
  ultimately show ?thesis by (simp only: append_Cons append_Nil)
qed

lemma fold_prefix_text:
  assumes "\<not> is_dash a"
  shows "fold (dash_step (pre @ a # rest)) [0 ..< Suc (length pre)] [] = residual_dashes (pre @ [a])"
proof -
  have "fold (dash_step (pre @ a # rest)) [0 ..< Suc (length pre)] []
      = fold (dash_step (pre @ [a])) [0 ..< Suc (length pre)] []"
  proof (rule fold_cong[OF refl refl])
    fix i assume "i \<in> set [0 ..< Suc (length pre)]"
    then have "i \<le> length pre" by auto
    then show "dash_step (pre @ a # rest) i = dash_step (pre @ [a]) i"
      using assms by (intro ext) (rule dash_step_prefix_text)
  qed
  then show ?thesis by (simp add: residual_dashes_def)
qed

lemma dash_step_compound:
  assumes "is_dash d" "isalnum a" "isalnum b"
  shows "dash_step (pre @ a # d # b # post) (Suc (length pre)) r = r @ [hyphen]"
proof -
  have "(pre @ a # d # b # post) ! Suc (length pre) = d" "(pre @ a # d # b # post) ! length pre = a"
    "(pre @ a # d # b # post) ! Suc (Suc (length pre)) = b"
    by (simp_all add: nth_append)
  then show ?thesis using assms by (simp add: dash_step_def Let_def)
qed

lemma dash_step_after_compound:
  assumes "\<not> is_dash b"
  shows "dash_step (pre @ a # d # b # post) (Suc (Suc (length pre))) r = r @ [b]"
proof -
  have "(pre @ a # d # b # post) ! Suc (Suc (length pre)) = b" by (simp add: nth_append)
  then show ?thesis using assms by (simp add: dash_step_def Let_def)
qed

lemma residual_dashes_compound:
  assumes d: "is_dash d" and a: "isalnum a" and b: "isalnum b"
  shows "\<exists>zs. residual_dashes (pre @ a # d # b # post) = residual_dashes (pre @ [a]) @ hyphen # b # zs"
proof -
  let ?t = "pre @ a # d # b # post"
  let ?k = "length pre"
  have na: "\<not> is_dash a" and nb: "\<not> is_dash b" using a b by (auto dest: isalnum_not_dash)
  have len: "length ?t = Suc ?k + Suc (Suc (length post))" by simp
  define r where "r = residual_dashes (pre @ [a])"
  define js where "js = [Suc (Suc (Suc ?k)) ..< Suc ?k + Suc (Suc (length post))]"
  have f1: "fold (dash_step ?t) [0 ..< Suc ?k] [] = r" unfolding r_def using na by (rule fold_prefix_text)
  have s1: "dash_step ?t (Suc ?k) r = r @ [hyphen]" using d a b by (rule dash_step_compound)
  have s2: "dash_step ?t (Suc (Suc ?k)) (r @ [hyphen]) = r @ [hyphen] @ [b]"
    using dash_step_after_compound[OF nb, of pre a d post "r @ [hyphen]"] by simp
  have "r @ [hyphen] @ [b] \<noteq> []" "last (r @ [hyphen] @ [b]) \<noteq> space"
    using b by (simp_all add: isalnum_not_space)
  from fold_dash_step_keeps_prefix[OF this, of ?t js "[]"]
  obtain zs where z: "fold (dash_step ?t) js (r @ [hyphen] @ [b]) = (r @ [hyphen] @ [b]) @ zs"
    by auto
  have "residual_dashes ?t = fold (dash_step ?t) ([0 ..< Suc ?k] @ [Suc ?k] @ [Suc (Suc ?k)] @ js) []"
    unfolding residual_dashes_def len js_def by (simp only: upt_split3[symmetric])
  also have "\<dots> = fold (dash_step ?t) js
      (dash_step ?t (Suc (Suc ?k)) (dash_step ?t (Suc ?k) (fold (dash_step ?t) [0 ..< Suc ?k] [])))"
    by (simp only: fold_append fold_simps comp_def id_def)
  also have "\<dots> = (r @ [hyphen] @ [b]) @ zs" by (simp only: f1 s1 s2 z)
  finally show ?thesis unfolding r_def by (intro exI[of _ zs]) (simp only: append_assoc append_Cons append_Nil)
qed

lemma compound_example:
  "normalize_for_tts (lit ''cross-pollination is common.'') = lit ''cross-pollination is common.''"
  by (simp add: normalize_eval strip_def upt_rec char_defs)

text \<open>
  C6, as stated: normalization keeps every dash between two alphanumeric characters as a
  hyphen. In \<open>"Asia-particularly"\<close> the dash stands between \<open>a\<close> and \<open>p\<close>, and pass 2 (a discourse
  marker on the right) turns it into a comma.
\<close>

theorem compound_dash_counterexample:
  "normalize_for_tts (lit ''Asia-particularly'') = lit ''Asia, particularly''
   \<and> isalnum 97 \<and> is_dash 45 \<and> isalnum 112
   \<and> lit ''Asia-particularly'' = lit ''Asi'' @ 97 # 45 # 112 # lit ''articularly''"
  by (simp add: normalize_eval strip_def upt_rec char_defs)

text \<open>
  C6, amended. Passes 1 and 2 turn a dash between alphanumeric characters into a comma when it
  delimits a multi-word aside or stands before a discourse marker. Every dash (hyphen, en dash
  or em dash) that reaches pass 3 between two alphanumeric characters \<open>a\<close> and \<open>b\<close> comes out of
  pass 3 as a hyphen between \<open>a\<close> and \<open>b\<close>, never as a comma. In particular
  \<open>"cross-pollination is common."\<close> is normalized to itself.
\<close>

theorem residual_dashes_keep_compound:
  assumes "is_dash d" "isalnum a" "isalnum b"
  shows "(\<exists>zs. residual_dashes (pre @ a # d # b # post) = residual_dashes (pre @ [a]) @ hyphen # b # zs)
         \<and> last (residual_dashes (pre @ [a])) = a
         \<and> normalize_for_tts (lit ''cross-pollination is common.'') = lit ''cross-pollination is common.''"
proof -
  have "\<not> is_dash a" using assms(2) by (rule isalnum_not_dash)
  then have "last (residual_dashes (pre @ [a])) = a" by (simp add: residual_dashes_snoc)
  with residual_dashes_compound[OF assms] compound_example show ?thesis by blast
qed

theorem residual_dashes_keep_compound_witness:
  "is_dash en_dash \<and> isalnum 115 \<and> isalnum 112
   \<and> (\<exists>zs. residual_dashes (lit ''cros'' @ 115 # en_dash # 112 # lit ''ollination'')
          = residual_dashes (lit ''cros'' @ [115]) @ hyphen # 112 # zs)
   \<and> last (residual_dashes (lit ''cros'' @ [115])) = 115"
proof -
  have 1: "is_dash en_dash" by (simp add: is_dash_def)
  have 2: "isalnum 115" and 3: "isalnum 112" by (simp_all add: isalnum_def)
  from residual_dashes_keep_compound[OF 1 2 3, of "lit ''cros''" "lit ''ollination''"] 1 2 3
  show ?thesis by simp
qed

subsection \<open>Claim C7\<close>

lemma find_close_inner:
  assumes "\<forall>c\<in>set inner. \<not> is_dash c \<and> c \<noteq> newline" "is_dash d"
  shows "find_close (inner @ d # post) = Some (inner, d, post)"
  using assms by (induction inner) (auto simp: is_dash_def)

lemma aside_sub_no_dash: "\<forall>c\<in>set pre. \<not> is_dash c \<Longrightarrow> aside_sub (pre @ rest) = pre @ aside_sub rest"
  by (induction pre) auto

lemma aside_example:
  "normalize_for_tts (lit ''associated-though possibly inaccurately-with the data'')
     = lit ''associated, though possibly inaccurately, with the data''"
  by (simp add: normalize_eval strip_def upt_rec char_defs)

text \<open>
  C7, as stated: every span made of a dash, a run of non-dash characters and a dash is
  rewritten when its trimmed inside contains a space. The span \<open>-b c\nd-\<close> below is of that form
  and its trimmed inside contains a space, but the pass leaves the text as it is: the pattern
  does not run across a newline.
\<close>

theorem aside_counterexample:
  "aside_sub (lit ''a-b c'' @ [newline] @ lit ''d-e'') = lit ''a-b c'' @ [newline] @ lit ''d-e''
   \<and> space \<in> set (strip (lit ''b c'' @ [newline] @ lit ''d''))
   \<and> filter is_dash (lit ''b c'' @ [newline] @ lit ''d'') = []"
  by (simp add: strip_def char_defs)

text \<open>
  C7, amended. The pass scans from left to right. A dash, a run \<open>inner\<close> of characters that are
  neither dashes nor newlines, and a dash, found after a stretch \<open>pre\<close> without dashes, are
  rewritten to \<open>", " + inner.strip() + ", "\<close> exactly when the trimmed \<open>inner\<close> contains a space, and
  are left untouched otherwise; the scan goes on after the closing dash. In particular
  \<open>"associated-though possibly inaccurately-with the data"\<close> is normalized to
  \<open>"associated, though possibly inaccurately, with the data"\<close>.
\<close>

theorem aside_rewrite:
  assumes "\<forall>c\<in>set pre. \<not> is_dash c" "is_dash d1" "is_dash d2"
    "\<forall>c\<in>set inner. \<not> is_dash c \<and> c \<noteq> newline"
  shows "aside_sub (pre @ d1 # inner @ d2 # post) =
           pre @ (if space \<in> set (strip inner) then lit '', '' @ strip inner @ lit '', ''
                  else d1 # inner @ [d2]) @ aside_sub post
         \<and> normalize_for_tts (lit ''associated-though possibly inaccurately-with the data'')
             = lit ''associated, though possibly inaccurately, with the data''"
proof -
  have "aside_sub (d1 # inner @ d2 # post) = replace_aside (d1 # inner @ [d2]) inner @ aside_sub post"
    using assms(2) find_close_inner[OF assms(4,3)] by simp
  then show ?thesis
    using aside_sub_no_dash[OF assms(1)] aside_example by (simp add: replace_aside_def)
qed

theorem aside_rewrite_witness:
  "is_dash hyphen \<and> filter is_dash (lit ''associated'') = []
   \<and> filter (\<lambda>c. is_dash c \<or> c = newline) (lit ''though possibly inaccurately'') = []
   \<and> aside_sub (lit ''associated'' @ hyphen # lit ''though possibly inaccurately'' @ hyphen # lit ''with the data'')
       = lit ''associated'' @ lit '', '' @ lit ''though possibly inaccurately'' @ lit '', '' @ lit ''with the data''"
proof -
  have 1: "\<forall>c\<in>set (lit ''associated''). \<not> is_dash c" by (simp add: char_defs)
  have 2: "is_dash hyphen" by (simp add: is_dash_def)
  have 3: "\<forall>c\<in>set (lit ''though possibly inaccurately''). \<not> is_dash c \<and> c \<noteq> newline"
    by (simp add: char_defs)
  have 4: "aside_sub (lit ''with the data'') = lit ''with the data''" by (simp add: char_defs)
  have 5: "strip (lit ''though possibly inaccurately'') = lit ''though possibly inaccurately''"
    by (simp add: strip_def char_defs)
  have 6: "space \<in> set (lit ''though possibly inaccurately'')" by (simp add: char_defs)
  have 7: "filter is_dash (lit ''associated'') = []" by (simp add: char_defs)
  have 8: "filter (\<lambda>c. is_dash c \<or> c = newline) (lit ''though possibly inaccurately'') = []"
    by (simp add: char_defs)
  from aside_rewrite[OF 1 2 2 3, of "lit ''with the data''"] 2 7 8 show ?thesis
    by (simp only: 4 5 6 if_True simp_thms append_assoc)
qed

subsection \<open>Claim C9\<close>







lemma collapse_ws_Nil: "collapse_ws xs = [] \<longleftrightarrow> xs = []"
  by (cases xs) auto





lemma spaced_dashes_example: "normalize_for_tts (lit ''a - - b'') = lit ''a, , b''"
  by (simp add: normalize_eval strip_def upt_rec char_defs)



end
